theory Spec2Isabelle
  imports Complex_Main "HOL-Library.Sublist" "HOL-Library.Log_Nat"
begin

section \<open>Strings and arrays of the host language\<close>

text \<open>
  The rotation game lives in two copies of one React component:
  \<^verbatim>\<open>src/src/app/page.tsx\<close> and \<^verbatim>\<open>src/unnamed/part_000\<close>. They share the storage
  loader, the draw (\<^verbatim>\<open>spinWheel\<close>) and the reset; they differ in \<^verbatim>\<open>saveMonth\<close>.

  A text of the program is carried as the bytes of its UTF-8 encoding, a \<^typ>\<open>string\<close>.
  The encoding is one-to-one, so two texts are equal exactly when their bytes are, and
  the empty text is the empty list.

  \<^verbatim>\<open>String.prototype.trim\<close> removes from both ends every code point that ECMAScript
  counts as white space or as a line terminator: U+0009 to U+000D, U+0020, U+00A0,
  U+1680, U+2000 to U+200A, U+2028, U+2029, U+202F, U+205F, U+3000 and U+FEFF. Their
  encodings are listed below. No encoding in UTF-8 starts inside another, so a text
  starts (ends) with one of these code points exactly when its bytes start (end) with
  the encoding.
\<close>

definition white_space :: "string list" where
  "white_space =
     [[CHR 0x09], [CHR 0x0A], [CHR 0x0B], [CHR 0x0C], [CHR 0x0D], [CHR 0x20],
      [CHR 0xC2, CHR 0xA0], [CHR 0xE1, CHR 0x9A, CHR 0x80],
      [CHR 0xE2, CHR 0x80, CHR 0x80], [CHR 0xE2, CHR 0x80, CHR 0x81],
      [CHR 0xE2, CHR 0x80, CHR 0x82], [CHR 0xE2, CHR 0x80, CHR 0x83],
      [CHR 0xE2, CHR 0x80, CHR 0x84], [CHR 0xE2, CHR 0x80, CHR 0x85],
      [CHR 0xE2, CHR 0x80, CHR 0x86], [CHR 0xE2, CHR 0x80, CHR 0x87],
      [CHR 0xE2, CHR 0x80, CHR 0x88], [CHR 0xE2, CHR 0x80, CHR 0x89],
      [CHR 0xE2, CHR 0x80, CHR 0x8A], [CHR 0xE2, CHR 0x80, CHR 0xA8],
      [CHR 0xE2, CHR 0x80, CHR 0xA9], [CHR 0xE2, CHR 0x80, CHR 0xAF],
      [CHR 0xE2, CHR 0x81, CHR 0x9F], [CHR 0xE3, CHR 0x80, CHR 0x80],
      [CHR 0xEF, CHR 0xBB, CHR 0xBF]]"

text \<open>Removing, from the front, every leading occurrence of one of the given encodings.\<close>

function strip :: "string list \<Rightarrow> string \<Rightarrow> string" where
  "strip ws s =
     (case find (\<lambda>w. w \<noteq> [] \<and> prefix w s) ws of
        None \<Rightarrow> s
      | Some w \<Rightarrow> strip ws (drop (length w) s))"
  by pat_completeness auto
termination
proof (relation "measure (\<lambda>(ws, s). length s)")
  show "wf (measure (\<lambda>(ws, s). length s))"
    by simp
next
  fix ws :: "string list" and s w :: string
  assume "find (\<lambda>w. w \<noteq> [] \<and> prefix w s) ws = Some w"
  then have "w \<noteq> []" and "prefix w s"
    by (auto simp: find_Some_iff)
  then show "((ws, drop (length w) s), (ws, s)) \<in> measure (\<lambda>(ws, s). length s)"
    by (auto simp: prefix_def)
qed

declare strip.simps [simp del]

definition trim :: "string \<Rightarrow> string" where
  "trim s = rev (strip (map rev white_space) (rev (strip white_space s)))"

text \<open>
  \<^verbatim>\<open>toLowerCase\<close> is modelled on the ASCII capitals and leaves every other byte. The
  code lowers capitals beyond ASCII too, but none of them to a text of ASCII letters
  only, so whether the lowered name equals "dennis" or "denno", the one use the code
  makes of it, is the same.
\<close>

definition lower_char :: "char \<Rightarrow> char" where
  "lower_char c =
     (let n = (of_char c :: nat) in if 65 \<le> n \<and> n \<le> 90 then char_of (n + 32) else c)"

definition toLowerCase :: "string \<Rightarrow> string" where
  "toLowerCase s = map lower_char s"

text \<open>\<^verbatim>\<open>xs[i]\<close>: a read past the end of an array is \<^verbatim>\<open>undefined\<close>, here \<^const>\<open>None\<close>.\<close>

definition array_get :: "'a list \<Rightarrow> nat \<Rightarrow> 'a option" where
  "array_get xs i = (if i < length xs then Some (xs ! i) else None)"

text \<open>\<^verbatim>\<open>findIndex\<close> and \<^verbatim>\<open>indexOf\<close> return -1 when nothing matches, here \<^const>\<open>None\<close>.\<close>

fun findIndex :: "('a \<Rightarrow> bool) \<Rightarrow> 'a list \<Rightarrow> nat option" where
  "findIndex P [] = None"
| "findIndex P (x # xs) = (if P x then Some 0 else map_option Suc (findIndex P xs))"

definition indexOf :: "'a list \<Rightarrow> 'a \<Rightarrow> nat option" where
  "indexOf xs x = findIndex (\<lambda>y. y = x) xs"

section \<open>Constants\<close>

definition TOTAL_MEMBERS :: nat where
  "TOTAL_MEMBERS = 10"

definition EXPIRY_DAYS :: rat where
  "EXPIRY_DAYS = 7"

definition MONTHS :: "string list" where
  "MONTHS = [''January'', ''February'', ''March'', ''April'', ''May'', ''June'',
             ''July'', ''August'', ''September'', ''October'', ''November'', ''December'']"

text \<open>The avatar glyphs, each as the four UTF-8 bytes of its code point.\<close>

definition DEFAULT_EMOJIS :: "string list" where
  "DEFAULT_EMOJIS =
     [[CHR 0xF0, CHR 0x9F, CHR 0xA6, CHR 0x81], [CHR 0xF0, CHR 0x9F, CHR 0x90, CHR 0xB5],
      [CHR 0xF0, CHR 0x9F, CHR 0x90, CHR 0xB8], [CHR 0xF0, CHR 0x9F, CHR 0xA6, CHR 0x8A],
      [CHR 0xF0, CHR 0x9F, CHR 0x90, CHR 0xBC], [CHR 0xF0, CHR 0x9F, CHR 0x90, CHR 0xB7],
      [CHR 0xF0, CHR 0x9F, CHR 0x90, CHR 0xA8], [CHR 0xF0, CHR 0x9F, CHR 0x90, CHR 0xAF],
      [CHR 0xF0, CHR 0x9F, CHR 0x90, CHR 0x94], [CHR 0xF0, CHR 0x9F, CHR 0x90, CHR 0x99]]"

text \<open>The celebratory glyph U+1F389 that stands in for a missing avatar.\<close>

definition PARTY :: string where
  "PARTY = [CHR 0xF0, CHR 0x9F, CHR 0x8E, CHR 0x89]"

section \<open>The component's state\<close>

text \<open>
  A glyph of a record is \<^const>\<open>None\<close> where the code stored \<^verbatim>\<open>undefined\<close>. The
  \<^verbatim>\<open>date\<close> is the ISO text of the clock at the save, passed in by the caller.
\<close>

record MonthRecord =
  month :: string
  pair :: "string list"
  date :: string
  pair_emojis :: "string option list"

text \<open>
  The React state of \<^verbatim>\<open>ChamaWheel\<close>. The wheel's angle and the pointer's bounce only
  drive the animation and are left out.
\<close>

record state =
  names :: "string list"
  emojis :: "string list"
  order :: "string list"
  locked :: bool
  history :: "MonthRecord list"
  spinning :: bool
  currentPick :: "string option"
  tempPair :: "string list"

datatype effect = Alert string | Confetti

text \<open>The state after a load that found nothing, and after \<^verbatim>\<open>resetChama\<close>.\<close>

definition initial :: state where
  "initial = \<lparr>names = replicate TOTAL_MEMBERS [], emojis = DEFAULT_EMOJIS, order = [],
     locked = False, history = [], spinning = False, currentPick = None, tempPair = []\<rparr>"

section \<open>The draw\<close>

definition remainingNames :: "state \<Rightarrow> string list" where
  "remainingNames st = filter (\<lambda>n. trim n \<noteq> [] \<and> n \<notin> set (order st)) (names st)"

text \<open>
  \<^verbatim>\<open>Math.floor(Math.random() * slices)\<close>, with the value \<open>r\<close> of \<^verbatim>\<open>Math.random()\<close>
  as a parameter: a double at least 0 and below 1, so at most \<open>1 - 2\<^sup>-\<^sup>5\<^sup>3\<close>.

  The product is a double: the exact product \<open>x\<close> rounded to the nearest double, ties
  to the even significand. Whole numbers below \<open>2\<^sup>5\<^sup>2\<close> are doubles with an even
  significand and rounding keeps the order, so the rounded product lies between
  \<open>\<lfloor>x\<rfloor>\<close> and \<open>m = \<lfloor>x\<rfloor> + 1\<close>, and it is \<open>m\<close> exactly when \<open>x\<close> is at least half
  way from the last double below \<open>m\<close> to \<open>m\<close>. The doubles just below \<open>m\<close> are
  \<open>2\<^sup>e\<^sup>-\<^sup>5\<^sup>3\<close> apart, \<open>e\<close> the least exponent with \<open>m \<le> 2\<^sup>e\<close>, which is the
  number of binary digits of \<open>m - 1\<close>. For the double 0.7 and 10 names the exact
  product is \<open>7 - 2\<^sup>-\<^sup>5\<^sup>1\<close>, half way, and the code's index is 7.
\<close>

definition half_gap_below :: "int \<Rightarrow> rat" where
  "half_gap_below m = 2 ^ floorlog 2 (nat (m - 1)) / 2 ^ 54"

definition floor_double :: "rat \<Rightarrow> int" where
  "floor_double x =
     (if of_int (\<lfloor>x\<rfloor> + 1) - half_gap_below (\<lfloor>x\<rfloor> + 1) \<le> x then \<lfloor>x\<rfloor> + 1 else \<lfloor>x\<rfloor>)"

definition pickIndex :: "rat \<Rightarrow> nat \<Rightarrow> nat" where
  "pickIndex r slices = nat (floor_double (r * of_nat slices))"

text \<open>
  \<^verbatim>\<open>spinWheel\<close> up to the timer: the guard, the lock, and the winner the timer's
  callback holds (read from the \<^verbatim>\<open>remainingNames\<close> of the click's render). For
  the values \<^verbatim>\<open>Math.random()\<close> can return, the read \<^verbatim>\<open>remainingNames[pickIndex]\<close> is
  in range.
\<close>

definition spinWheel :: "state \<Rightarrow> rat \<Rightarrow> state \<times> string option" where
  "spinWheel st r =
     (if spinning st \<or> length (remainingNames st) = 0 \<or> length (tempPair st) \<ge> 2
      then (st, None)
      else
        let slices = length (remainingNames st);
            winner = remainingNames st ! pickIndex r slices
        in (st\<lparr>locked := True, spinning := True, currentPick := None\<rparr>, Some winner))"

text \<open>The timer's callback, three seconds later.\<close>

definition spinTimeout :: "state \<Rightarrow> string \<Rightarrow> state" where
  "spinTimeout st winner =
     st\<lparr>order := order st @ [winner], tempPair := tempPair st @ [winner],
        currentPick := Some winner, spinning := False\<rparr>"

text \<open>A draw whose timer has run out before the next event.\<close>

definition draw :: "state \<Rightarrow> rat \<Rightarrow> state" where
  "draw st r =
     (case spinWheel st r of
        (st', None) \<Rightarrow> st'
      | (st', Some winner) \<Rightarrow> spinTimeout st' winner)"

section \<open>Saving a month\<close>

definition is_dennis :: "string \<Rightarrow> bool" where
  "is_dennis n = (n = ''dennis'' \<or> n = ''denno'')"

text \<open>
  \<^verbatim>\<open>saveMonth\<close> of \<^verbatim>\<open>src/unnamed/part_000\<close>, with the February rule. The result is
  the pair of the effects it raises and the state after all its updates. The PDF export
  that follows touches no state and is left out.

  First the block of the February rule: from the month label to the final pair and the
  Draw Order after it. The reads \<^verbatim>\<open>finalPair[1]\<close> and \<^verbatim>\<open>tempPair[0]\<close> are in range,
  since \<^verbatim>\<open>saveMonth\<close> has returned before when the buffer holds fewer than two names.
\<close>

definition februaryOverride :: "state \<Rightarrow> string \<Rightarrow> string list \<times> string list" where
  "februaryOverride st label =
     (if label = ''February'' then
        let normalized = map (\<lambda>n. toLowerCase (trim n)) (names st)
        in (case findIndex is_dennis normalized of
              None \<Rightarrow> (tempPair st, order st)
            | Some dennisIndex \<Rightarrow>
                let dennisName = names st ! dennisIndex
                in if dennisName \<in> set (tempPair st)
                   then (dennisName # filter (\<lambda>n. n \<noteq> dennisName) (tempPair st), order st)
                   else
                     let finalPair = [dennisName, tempPair st ! 1];
                         withoutFirst = filter (\<lambda>n. n \<noteq> tempPair st ! 0) (order st)
                     in (finalPair, withoutFirst @ finalPair))
      else (tempPair st, order st))"

text \<open>
  The glyphs of the new record: \<^verbatim>\<open>names.indexOf(name)\<close>, then \<^verbatim>\<open>emojis[idx]\<close>, or
  the celebratory glyph when the name is not in the roster.
\<close>

definition recordEmojis :: "state \<Rightarrow> string list \<Rightarrow> string option list" where
  "recordEmojis st finalPair =
     map (\<lambda>name. case indexOf (names st) name of
                    Some idx \<Rightarrow> array_get (emojis st) idx
                  | None \<Rightarrow> Some PARTY) finalPair"

definition saveMonth :: "state \<Rightarrow> string \<Rightarrow> effect list \<times> state" where
  "saveMonth st now =
     (if length (tempPair st) < 2
      then ([Alert ''Spin twice to select both winners!''], st)
      else
        let monthIndex = length (history st) mod 12;
            month = MONTHS ! monthIndex;
            (finalPair, order') = februaryOverride st month;
            record = \<lparr>month = month, pair = finalPair, date = now,
                       pair_emojis = recordEmojis st finalPair\<rparr>
        in ([Confetti],
            st\<lparr>order := order', history := history st @ [record], tempPair := [],
               locked := True\<rparr>))"

text \<open>
  \<^verbatim>\<open>saveMonth\<close> of \<^verbatim>\<open>src/src/app/page.tsx\<close>: no February rule, and the glyph of the
  winner at position \<open>i\<close> of the pair is \<^verbatim>\<open>emojis[i] || PARTY\<close>.
\<close>

definition saveMonth_page :: "state \<Rightarrow> string \<Rightarrow> effect list \<times> state" where
  "saveMonth_page st now =
     (if length (tempPair st) < 2
      then ([Alert ''Spin twice to select both winners!''], st)
      else
        let monthIndex = length (history st) mod 12;
            month = MONTHS ! monthIndex;
            record = \<lparr>month = month, pair = tempPair st, date = now,
                       pair_emojis = map (\<lambda>i. case array_get (emojis st) i of
                                                   None \<Rightarrow> Some PARTY
                                                 | Some e \<Rightarrow> if e = [] then Some PARTY else Some e)
                                         [0 ..< length (tempPair st)]\<rparr>
        in ([Confetti],
            st\<lparr>history := history st @ [record], tempPair := [], locked := True\<rparr>))"

section \<open>Reset and roster edits\<close>

definition resetChama :: "state \<Rightarrow> state" where
  "resetChama st =
     st\<lparr>names := replicate TOTAL_MEMBERS [], emojis := DEFAULT_EMOJIS, order := [],
        tempPair := [], locked := False, currentPick := None, history := []\<rparr>"

text \<open>
  The \<^verbatim>\<open>onChange\<close> of the input of slot \<open>i\<close>. The inputs are rendered one per slot
  and disabled while \<^verbatim>\<open>locked\<close>, so an edit reaches the state only for a slot of the
  roster and only while it is unlocked.
\<close>

definition setName :: "state \<Rightarrow> nat \<Rightarrow> string \<Rightarrow> state" where
  "setName st i v =
     (if locked st \<or> i \<ge> length (names st) then st
      else st\<lparr>names := (names st)[i := v]\<rparr>)"

section \<open>Runs\<close>

datatype op = SetName nat string | Draw rat | Finalize string | Reset

text \<open>One user event, for a given copy's \<^verbatim>\<open>saveMonth\<close>.\<close>

fun step :: "(state \<Rightarrow> string \<Rightarrow> effect list \<times> state) \<Rightarrow> state \<Rightarrow> op \<Rightarrow> state" where
  "step fin st (SetName i v) = setName st i v"
| "step fin st (Draw r) = draw st r"
| "step fin st (Finalize now) = snd (fin st now)"
| "step fin st Reset = resetChama st"

fun run :: "(state \<Rightarrow> string \<Rightarrow> effect list \<times> state) \<Rightarrow> state \<Rightarrow> op list \<Rightarrow> state" where
  "run fin st [] = st"
| "run fin st (x # xs) = run fin (step fin st x) xs"

text \<open>
  The values \<^verbatim>\<open>Math.random()\<close> can return lie between 0 and the last double below 1.
\<close>

fun valid_op :: "op \<Rightarrow> bool" where
  "valid_op (Draw r) = (0 \<le> r \<and> r \<le> 1 - 1 / 2 ^ 53)"
| "valid_op _ = True"

section \<open>Loading the stored blob\<close>

text \<open>
  What \<^verbatim>\<open>JSON.parse\<close> returns. A number carries its value; only whether it is zero
  matters here.
\<close>

datatype json = JNull | JBool bool | JNum rat | JStr string | JArr "json list"
  | JObj "(string \<times> json) list"

text \<open>
  \<^verbatim>\<open>parsed.key\<close> for the six keys the loader reads, on a value other than
  \<^verbatim>\<open>null\<close>: an object gives the property or \<^verbatim>\<open>undefined\<close> (\<^const>\<open>None\<close>), a
  number, a boolean, a string or an array has none of the six. An object lists each of
  its keys once.
\<close>

fun field :: "json \<Rightarrow> string \<Rightarrow> json option" where
  "field (JObj kvs) k = map_of kvs k"
| "field _ k = None"

fun truthy :: "json option \<Rightarrow> bool" where
  "truthy None = False"
| "truthy (Some JNull) = False"
| "truthy (Some (JBool b)) = b"
| "truthy (Some (JNum x)) = (x \<noteq> 0)"
| "truthy (Some (JStr s)) = (s \<noteq> [])"
| "truthy (Some (JArr xs)) = True"
| "truthy (Some (JObj kvs)) = True"

fun isArray :: "json option \<Rightarrow> bool" where
  "isArray (Some (JArr xs)) = True"
| "isArray _ = False"

fun elements :: "json option \<Rightarrow> json list" where
  "elements (Some (JArr xs)) = xs"
| "elements _ = []"

text \<open>
  What the loader takes from its surroundings: whether it runs in a browser, the parser
  (\<^const>\<open>None\<close> when \<^verbatim>\<open>JSON.parse\<close> throws), the time value of \<^verbatim>\<open>new Date(v)\<close> in
  milliseconds (\<^const>\<open>None\<close> for an invalid date, whose time value is NaN), the clock in
  milliseconds and the clock's ISO text.
\<close>

record env =
  window_defined :: bool
  JSON_parse :: "string \<Rightarrow> json option"
  Date_getTime :: "json \<Rightarrow> int option"
  now_ms :: int
  now_iso :: string

record StoredData =
  sd_names :: "json list"
  sd_emojis :: "json list"
  sd_order :: "json list"
  sd_locked :: bool
  sd_history :: "json list"
  savedAt :: json

definition defaults :: "env \<Rightarrow> StoredData" where
  "defaults e = \<lparr>sd_names = replicate TOTAL_MEMBERS (JStr []),
     sd_emojis = map JStr DEFAULT_EMOJIS, sd_order = [], sd_locked = False,
     sd_history = [], savedAt = JStr (now_iso e)\<rparr>"

text \<open>
  \<^verbatim>\<open>(now.getTime() - savedDate.getTime()) / (1000 * 60 * 60 * 24)\<close>. Both times are
  whole milliseconds; the quotient is taken exactly. The division of the code rounds
  to the nearest double, which keeps the order with 7, so the comparison below agrees
  with the code's. A NaN compares false.
\<close>

definition diffDays :: "env \<Rightarrow> json \<Rightarrow> rat option" where
  "diffDays e saved =
     map_option (\<lambda>t. of_int (now_ms e - t) / (1000 * 60 * 60 * 24)) (Date_getTime e saved)"

definition expired :: "env \<Rightarrow> json \<Rightarrow> bool" where
  "expired e saved = (case diffDays e saved of None \<Rightarrow> False | Some d \<Rightarrow> d > EXPIRY_DAYS)"

text \<open>The object the loader returns for a blob it keeps.\<close>

definition validated :: "env \<Rightarrow> json \<Rightarrow> StoredData" where
  "validated e parsed =
     \<lparr>sd_names = (if isArray (field parsed ''names'') then elements (field parsed ''names'')
                   else replicate TOTAL_MEMBERS (JStr [])),
      sd_emojis = (if isArray (field parsed ''emojis'') then elements (field parsed ''emojis'')
                    else map JStr DEFAULT_EMOJIS),
      sd_order = (if isArray (field parsed ''order'') then elements (field parsed ''order'')
                   else []),
      sd_locked = truthy (field parsed ''locked''),
      sd_history = (if isArray (field parsed ''history'') then elements (field parsed ''history'')
                     else []),
      savedAt = (case field parsed ''savedAt'' of
                   Some v \<Rightarrow> if truthy (Some v) then v else JStr (now_iso e)
                 | None \<Rightarrow> JStr (now_iso e))\<rparr>"

text \<open>
  \<^verbatim>\<open>loadStoredData\<close>, the same in both copies, on the item stored under the one key
  (\<^const>\<open>None\<close> when there is none). It returns the snapshot and the item after the
  call: \<^const>\<open>None\<close> after \<^verbatim>\<open>removeItem\<close>. Every \<^verbatim>\<open>throw\<close> ends in the \<^verbatim>\<open>catch\<close>,
  which returns the defaults; reading \<^verbatim>\<open>parsed.savedAt\<close> of \<^verbatim>\<open>null\<close> throws too.
\<close>

definition loadStoredData :: "env \<Rightarrow> string option \<Rightarrow> StoredData \<times> string option" where
  "loadStoredData e store =
     (if \<not> window_defined e then (defaults e, store)
      else (case store of
        None \<Rightarrow> (defaults e, store)
      | Some raw \<Rightarrow>
          (if raw = [] then (defaults e, store)
           else (case JSON_parse e raw of
             None \<Rightarrow> (defaults e, store)
           | Some JNull \<Rightarrow> (defaults e, store)
           | Some parsed \<Rightarrow>
               (case field parsed ''savedAt'' of
                  Some saved \<Rightarrow>
                    (if truthy (Some saved) \<and> expired e saved then (defaults e, None)
                     else (validated e parsed, store))
                | None \<Rightarrow> (validated e parsed, store))))))"

section \<open>Predicates and data for the statements\<close>

text \<open>The test of the February rule on a roster name: trimmed, lower-cased, compared.\<close>

definition normalizes_to_dennis :: "string \<Rightarrow> bool" where
  "normalizes_to_dennis n = is_dennis (toLowerCase (trim n))"

text \<open>
  The states in which \<^const>\<open>saveMonth\<close> takes the branch that rewrites Draw Order: the
  save is accepted, the label is February, and the first roster name that passes the
  test is not a pending winner.
\<close>

definition substitutes :: "state \<Rightarrow> bool" where
  "substitutes st =
     (2 \<le> length (tempPair st) \<and> length (history st) mod 12 = 1 \<and>
      (case find normalizes_to_dennis (names st) of
         None \<Rightarrow> False
       | Some d \<Rightarrow> d \<notin> set (tempPair st)))"

text \<open>
  Whether, at the end of a run of the copy with the February rule, no save has taken
  that branch since the last reset. The flag \<open>b\<close> says so for the events before the
  run; \<^verbatim>\<open>flag_after\<close> carries it over one event.
\<close>

fun flag_after :: "bool \<Rightarrow> state \<Rightarrow> op \<Rightarrow> bool" where
  "flag_after b st Reset = True"
| "flag_after b st (Finalize now) = (b \<and> \<not> substitutes st)"
| "flag_after b st (SetName i v) = b"
| "flag_after b st (Draw r) = b"

fun untouched :: "bool \<Rightarrow> state \<Rightarrow> op list \<Rightarrow> bool" where
  "untouched b st [] = b"
| "untouched b st (x # xs) = untouched (flag_after b st x) (step saveMonth st x) xs"

text \<open>
  Draw Order holds non-blank roster names, the buffer holds at most two of them, each
  once, the roster is locked once a name is drawn, and no draw is in flight between
  two events.
\<close>

definition roster_ok :: "state \<Rightarrow> bool" where
  "roster_ok st =
     ((\<forall>n\<in>set (order st). n \<in> set (names st) \<and> trim n \<noteq> []) \<and>
      set (tempPair st) \<subseteq> set (order st) \<and> distinct (tempPair st) \<and>
      length (tempPair st) \<le> 2 \<and> (locked st \<or> order st = []) \<and> \<not> spinning st \<and>
      length (names st) = TOTAL_MEMBERS)"

definition counted :: "state \<Rightarrow> bool" where
  "counted st =
     (distinct (order st) \<and>
      length (order st) = 2 * length (history st) + length (tempPair st))"

text \<open>Draw, draw, save: one month, with the two random values and the clock's text.\<close>

fun cycles :: "(rat \<times> rat \<times> string) list \<Rightarrow> op list" where
  "cycles [] = []"
| "cycles ((r1, r2, now) # cs) = Draw r1 # Draw r2 # Finalize now # cycles cs"

fun valid_cycle :: "rat \<times> rat \<times> string \<Rightarrow> bool" where
  "valid_cycle (r1, r2, now) = (valid_op (Draw r1) \<and> valid_op (Draw r2))"

text \<open>
  The state of the scenario on the roster \<open>ns\<close> after \<open>k\<close> whole months: nothing
  pending, \<open>2 * k\<close> distinct roster names drawn, the first \<open>k\<close> labels used in order.
\<close>

definition after_months :: "string list \<Rightarrow> nat \<Rightarrow> state \<Rightarrow> bool" where
  "after_months ns k s =
     (names s = ns \<and> \<not> spinning s \<and> tempPair s = [] \<and> distinct (order s) \<and>
      set (order s) \<subseteq> set ns \<and> length (order s) = 2 * k \<and>
      map month (history s) = take k MONTHS)"

text \<open>A state with the glyphs of its records blanked, to compare two saves up to them.\<close>

definition without_glyphs :: "state \<Rightarrow> state" where
  "without_glyphs st = st\<lparr>history := map (\<lambda>r. r\<lparr>pair_emojis := []\<rparr>) (history st)\<rparr>"

text \<open>
  Typing a roster into the ten slots, and rosters to run the game on. The name of slot
  2 of the third one is " DeNNo" followed by a no-break space (U+00A0).
\<close>

definition enter :: "string list \<Rightarrow> op list" where
  "enter ns = map (\<lambda>(i, n). SetName i n) (zip [0 ..< length ns] ns)"

definition denno_roster :: "string list" where
  "denno_roster = [''Amina'', ''Brian'', ''Denno'', ''Carol'', ''Eve'', ''Faith'', ''Gitau'',
                   ''Hawa'', ''Imani'', ''Juma'']"

definition padded_denno :: string where
  "padded_denno = '' DeNNo'' @ [CHR 0xC2, CHR 0xA0]"

definition padded_roster :: "string list" where
  "padded_roster = [''Amina'', ''Brian'', padded_denno, ''Carol'', ''Eve'', ''Faith'', ''Gitau'',
                    ''Hawa'', ''Imani'', ''Juma'']"

definition plain_roster :: "string list" where
  "plain_roster = [''Amina'', ''Brian'', ''Carol'', ''Eve'', ''Faith'', ''Gitau'', ''Hawa'',
                   ''Imani'', ''Juma'', ''Kioko'']"

section \<open>Strings and arrays\<close>

lemma strip_no_match:
  assumes "\<forall>w\<in>set ws. w \<noteq> [] \<longrightarrow> \<not> prefix w s"
  shows "strip ws s = s"
proof -
  from assms have "find (\<lambda>w. w \<noteq> [] \<and> prefix w s) ws = None"
    by (auto simp: find_None_iff)
  then show ?thesis
    by (subst strip.simps) simp
qed

lemma strip_other_start:
  assumes "s \<noteq> []" and "hd s \<notin> set (map hd ws)"
  shows "strip ws s = s"
proof (rule strip_no_match, intro ballI impI notI)
  fix w assume w: "w \<in> set ws" "w \<noteq> []" "prefix w s"
  then have "hd w = hd s"
    using assms(1) by (auto simp: prefix_def)
  with w(1) have "hd s \<in> hd ` set ws" by (metis imageI)
  with assms(2) show False by simp
qed

lemma strip_empty: "strip ws [] = []"
  by (rule strip_no_match) simp

lemma white_space_nonempty: "[] \<notin> set white_space"
  by (simp add: white_space_def)

text \<open>
  A text that neither starts nor ends with a byte of a white-space encoding is its own
  trim. The equation also serves to evaluate \<^const>\<open>trim\<close>.
\<close>

lemma trim_plain [code]:
  "trim s =
     (if s = [] then []
      else if hd s \<in> set (map hd white_space) \<or> last s \<in> set (map last white_space)
      then rev (strip (map rev white_space) (rev (strip white_space s)))
      else s)"
proof (cases "s = []")
  case True
  then show ?thesis by (simp add: trim_def strip_empty)
next
  case False
  show ?thesis
  proof (cases "hd s \<in> set (map hd white_space) \<or> last s \<in> set (map last white_space)")
    case True
    with False show ?thesis by (simp add: trim_def)
  next
    case other: False
    then have front: "strip white_space s = s"
      using False by (intro strip_other_start) simp_all
    have "map hd (map rev white_space) = map last white_space"
      using white_space_nonempty by (induction white_space) (simp_all add: hd_rev)
    with other False have "strip (map rev white_space) (rev s) = rev s"
      by (intro strip_other_start) (simp_all add: hd_rev)
    with front other False show ?thesis
      by (simp add: trim_def)
  qed
qed

text \<open>
  Some trims: a no-break space and a byte order mark around a name, an ideographic
  space alone, a line separator at the end, inner spaces kept, and a zero width space
  (U+200B), which is no white space, kept.
\<close>

lemma trim_examples:
  "trim ([CHR 0xC2, CHR 0xA0] @ '' Denno'' @ [CHR 0xEF, CHR 0xBB, CHR 0xBF]) = ''Denno''
   \<and> trim [CHR 0xE3, CHR 0x80, CHR 0x80] = []
   \<and> trim (''Amina'' @ [CHR 0xE2, CHR 0x80, CHR 0xA8, CHR 0x0A]) = ''Amina''
   \<and> trim '' a b '' = ''a b''
   \<and> trim (''a'' @ [CHR 0xE2, CHR 0x80, CHR 0x8B]) = ''a'' @ [CHR 0xE2, CHR 0x80, CHR 0x8B]"
  by code_simp

lemma months_aux: "k < 12 \<Longrightarrow> (MONTHS ! k = ''February'') = (k = 1)"
proof -
  assume "k < 12"
  then have "k \<in> set [0 ..< 12]" by simp
  also have "[0 ..< 12] = [0, 1, 2, 3, 4, 5, 6, 7, 8, 9, 10, 11 :: nat]" by code_simp
  finally show ?thesis by (auto simp: MONTHS_def)
qed

lemma months_feb: "(MONTHS ! (n mod 12) = ''February'') = (n mod 12 = 1)"
  by (rule months_aux) simp

lemma length_MONTHS: "length MONTHS = 12"
  by (simp add: MONTHS_def)

lemma take_months: "k < 12 \<Longrightarrow> take k MONTHS @ [MONTHS ! k] = take (Suc k) MONTHS"
  by (simp add: take_Suc_conv_app_nth length_MONTHS)

lemma dennis_nonblank: "normalizes_to_dennis n \<Longrightarrow> trim n \<noteq> []"
  by (auto simp: normalizes_to_dennis_def is_dennis_def toLowerCase_def)

lemma findIndex_map_find:
  "map_option (\<lambda>i. xs ! i) (findIndex P (map f xs)) = find (\<lambda>x. P (f x)) xs"
  by (induction xs) (simp_all add: option.map_comp comp_def)

lemma findIndex_None_iff: "(findIndex P xs = None) = (\<forall>x\<in>set xs. \<not> P x)"
  by (induction xs) auto

lemma findIndex_Some_iff:
  "(findIndex P xs = Some i) = (i < length xs \<and> P (xs ! i) \<and> (\<forall>j<i. \<not> P (xs ! j)))"
proof (induction xs arbitrary: i)
  case Nil
  then show ?case by simp
next
  case (Cons x xs)
  show ?case
  proof (cases i)
    case 0
    then show ?thesis by auto
  next
    case (Suc k)
    with Cons [of k] show ?thesis
      by (auto simp: nth_Cons' All_less_Suc2 split: if_splits)
  qed
qed

lemma indexOf_None_iff: "(indexOf xs x = None) = (x \<notin> set xs)"
  by (auto simp: indexOf_def findIndex_None_iff)

lemma indexOf_Some_iff:
  "(indexOf xs x = Some i) = (i < length xs \<and> xs ! i = x \<and> (\<forall>j<i. xs ! j \<noteq> x))"
  by (simp add: indexOf_def findIndex_Some_iff)

lemma find_dennis_member:
  "find normalizes_to_dennis ns = Some d \<Longrightarrow> d \<in> set ns \<and> normalizes_to_dennis d"
  by (auto simp: find_Some_iff)

lemma remaining_count:
  assumes "distinct ns" and "distinct ord" and "set ord \<subseteq> set ns"
  shows "length (filter (\<lambda>n. n \<notin> set ord) ns) = length ns - length ord"
proof -
  have "length (filter (\<lambda>n. n \<notin> set ord) ns) = card ({n. n \<notin> set ord} \<inter> set ns)"
    using assms(1) by (rule distinct_length_filter)
  also have "{n. n \<notin> set ord} \<inter> set ns = set ns - set ord"
    by auto
  also have "card (set ns - set ord) = card (set ns) - card (set ord)"
    using assms(3) by (simp add: card_Diff_subset)
  finally show ?thesis
    using assms(1,2) by (simp add: distinct_card)
qed

section \<open>The draw\<close>

lemma half_gap_pos: "0 < half_gap_below m"
  by (simp add: half_gap_below_def)

lemma half_gap_le_one:
  assumes "m \<le> 2 ^ 54"
  shows "half_gap_below m \<le> 1"
proof -
  have "nat (m - 1) < 2 ^ 54"
    using assms by (simp add: nat_less_iff)
  then have "floorlog 2 (nat (m - 1)) \<le> 54"
    by (intro floorlog_leI) simp_all
  then have "(2::rat) ^ floorlog 2 (nat (m - 1)) \<le> 2 ^ 54"
    by (intro power_increasing) simp_all
  then show ?thesis
    by (simp add: half_gap_below_def)
qed

lemma half_gap_small:
  assumes "0 < n"
  shows "half_gap_below (int n) < of_nat n / 2 ^ 53"
proof -
  have "2 ^ floorlog 2 (n - 1) < 2 * n"
  proof (cases "n = 1")
    case True
    then show ?thesis by (simp add: floorlog_eq_zero_iff [THEN iffD2])
  next
    case False
    with assms have pos: "0 < n - 1" by simp
    then have "0 < floorlog 2 (n - 1)"
      by (simp add: floorlog_eq_zero_iff zero_less_iff_neq_zero)
    then have "(2::nat) ^ floorlog 2 (n - 1) = 2 * 2 ^ (floorlog 2 (n - 1) - 1)"
      by (cases "floorlog 2 (n - 1)") simp_all
    also have "\<dots> \<le> 2 * (n - 1)"
      using floorlog_bounds [of "n - 1" 2] pos by simp
    finally show ?thesis using pos by simp
  qed
  then have "(of_nat (2 ^ floorlog 2 (n - 1)) :: rat) < of_nat (2 * n)"
    by (simp only: of_nat_less_iff)
  then have "(2::rat) ^ floorlog 2 (n - 1) < 2 * of_nat n"
    by simp
  moreover have "nat (int n - 1) = n - 1" by simp
  ultimately show ?thesis
    by (simp add: half_gap_below_def field_simps)
qed

lemma floor_double_brackets: "\<lfloor>x\<rfloor> \<le> floor_double x \<and> floor_double x \<le> \<lfloor>x\<rfloor> + 1"
  by (simp add: floor_double_def)

lemma floor_double_eq_iff:
  assumes "k + 1 \<le> 2 ^ 54"
  shows "(floor_double x = k) =
         (of_int k - half_gap_below k \<le> x \<and> x < of_int (k + 1) - half_gap_below (k + 1))"
proof -
  have hk: "0 < half_gap_below k" "half_gap_below k \<le> 1"
    and hk1: "0 < half_gap_below (k + 1)" "half_gap_below (k + 1) \<le> 1"
    using assms by (simp_all add: half_gap_pos half_gap_le_one)
  show ?thesis
  proof
    assume fd: "floor_double x = k"
    show "of_int k - half_gap_below k \<le> x \<and> x < of_int (k + 1) - half_gap_below (k + 1)"
    proof (cases "of_int (\<lfloor>x\<rfloor> + 1) - half_gap_below (\<lfloor>x\<rfloor> + 1) \<le> x")
      case True
      with fd have k: "k = \<lfloor>x\<rfloor> + 1" by (simp add: floor_double_def)
      have "x < of_int k" unfolding k by linarith
      with True hk1 show ?thesis by (simp add: k; linarith?)
    next
      case False
      with fd have k: "k = \<lfloor>x\<rfloor>" by (simp add: floor_double_def)
      have "of_int k \<le> x" unfolding k by simp
      with False hk show ?thesis by (simp add: k; linarith?)
    qed
  next
    assume b: "of_int k - half_gap_below k \<le> x \<and> x < of_int (k + 1) - half_gap_below (k + 1)"
    then have b1: "of_int k - half_gap_below k \<le> x"
      and b2: "x < of_int (k + 1) - half_gap_below (k + 1)"
      by simp_all
    have lo: "of_int (k - 1) \<le> x"
      using b1 hk(2) by simp
    have hi: "x < of_int (k + 1)"
      using b2 hk1(1) by linarith
    from lo have "k - 1 \<le> \<lfloor>x\<rfloor>"
      by (simp only: le_floor_iff)
    moreover from hi have "\<lfloor>x\<rfloor> < k + 1"
      by (simp only: floor_less_iff)
    ultimately have "k - 1 \<le> \<lfloor>x\<rfloor>" and "\<lfloor>x\<rfloor> \<le> k"
      by simp_all
    then consider "\<lfloor>x\<rfloor> = k" | "\<lfloor>x\<rfloor> = k - 1" by linarith
    then show "floor_double x = k"
    proof cases
      case 1
      with b show ?thesis by (simp add: floor_double_def)
    next
      case 2
      with b show ?thesis by (simp add: floor_double_def)
    qed
  qed
qed

lemma pickIndex_less:
  assumes "0 \<le> r" and "r \<le> 1 - 1 / 2 ^ 53" and "0 < n"
  shows "pickIndex r n < n"
proof -
  let ?x = "r * of_nat n"
  have top: "?x \<le> of_nat n - of_nat n / 2 ^ 53"
  proof -
    have "?x \<le> (1 - 1 / 2 ^ 53) * of_nat n"
      using assms(2) by (intro mult_right_mono) simp_all
    then show ?thesis by (simp add: algebra_simps)
  qed
  with half_gap_small [OF assms(3)] have below: "?x < of_nat n - half_gap_below (int n)"
    by linarith
  with half_gap_pos [of "int n"] have "?x < of_nat n" by linarith
  then have "\<lfloor>?x\<rfloor> < int n"
    by (simp add: floor_less_iff)
  then have fl: "\<lfloor>?x\<rfloor> + 1 \<le> int n"
    by simp
  have "floor_double ?x < int n"
  proof (cases "\<lfloor>?x\<rfloor> + 1 = int n")
    case True
    with below have "\<not> of_int (\<lfloor>?x\<rfloor> + 1) - half_gap_below (\<lfloor>?x\<rfloor> + 1) \<le> ?x"
      by simp
    with True show ?thesis by (simp add: floor_double_def)
  next
    case False
    with fl have "\<lfloor>?x\<rfloor> + 1 < int n" by simp
    with floor_double_brackets [of ?x] show ?thesis by linarith
  qed
  then show ?thesis
    using assms(3) by (simp add: pickIndex_def)
qed

lemma pickIndex_eq_iff:
  assumes "0 \<le> r" and "k < 2 ^ 32"
  shows "(pickIndex r n = k) =
         (of_nat k - half_gap_below (int k) \<le> r * of_nat n \<and>
          r * of_nat n < of_nat k + 1 - half_gap_below (int k + 1))"
proof -
  have "0 \<le> \<lfloor>r * of_nat n\<rfloor>" using assms(1) by simp
  with floor_double_brackets [of "r * of_nat n"] have "0 \<le> floor_double (r * of_nat n)"
    by linarith
  then have "(pickIndex r n = k) = (floor_double (r * of_nat n) = int k)"
    by (auto simp: pickIndex_def)
  also have "int k + 1 \<le> 2 ^ 54"
    using assms(2) by simp
  then have "(floor_double (r * of_nat n) = int k) =
      (of_int (int k) - half_gap_below (int k) \<le> r * of_nat n \<and>
       r * of_nat n < of_int (int k + 1) - half_gap_below (int k + 1))"
    by (rule floor_double_eq_iff)
  finally show ?thesis by simp
qed

lemma set_remainingNames:
  "set (remainingNames st) = {n \<in> set (names st). trim n \<noteq> [] \<and> n \<notin> set (order st)}"
  by (auto simp: remainingNames_def)

lemma remaining_of_roster:
  assumes "\<forall>n\<in>set (names s). trim n \<noteq> []"
  shows "remainingNames s = filter (\<lambda>n. n \<notin> set (order s)) (names s)"
  unfolding remainingNames_def using assms by (intro filter_cong) auto

lemma winner_remaining:
  assumes "0 \<le> r" "r \<le> 1 - 1 / 2 ^ 53" "remainingNames st \<noteq> []"
  shows "remainingNames st ! pickIndex r (length (remainingNames st)) \<in> set (remainingNames st)"
  using assms by (intro nth_mem pickIndex_less) simp_all

lemma draw_rejected:
  "spinning st \<or> remainingNames st = [] \<or> 2 \<le> length (tempPair st) \<Longrightarrow> draw st r = st"
  by (auto simp: draw_def spinWheel_def)

lemma draw_accepted:
  "\<not> spinning st \<Longrightarrow> remainingNames st \<noteq> [] \<Longrightarrow> length (tempPair st) < 2 \<Longrightarrow>
   draw st r =
     st\<lparr>locked := True, spinning := False,
        currentPick := Some (remainingNames st ! pickIndex r (length (remainingNames st))),
        order := order st @ [remainingNames st ! pickIndex r (length (remainingNames st))],
        tempPair := tempPair st @ [remainingNames st ! pickIndex r (length (remainingNames st))]\<rparr>"
  by (simp add: draw_def spinWheel_def spinTimeout_def Let_def)

lemma draw_cases:
  assumes "0 \<le> r" "r \<le> 1 - 1 / 2 ^ 53"
  shows "draw st r = st \<or>
    (\<exists>w. w \<in> set (names st) \<and> trim w \<noteq> [] \<and> w \<notin> set (order st) \<and>
         \<not> spinning st \<and> length (tempPair st) < 2 \<and>
         draw st r = st\<lparr>locked := True, spinning := False, currentPick := Some w,
                        order := order st @ [w], tempPair := tempPair st @ [w]\<rparr>)"
proof (cases "spinning st \<or> remainingNames st = [] \<or> 2 \<le> length (tempPair st)")
  case True
  then show ?thesis by (simp add: draw_rejected)
next
  case False
  let ?w = "remainingNames st ! pickIndex r (length (remainingNames st))"
  from False assms have "?w \<in> set (remainingNames st)"
    by (simp add: winner_remaining)
  then have "?w \<in> set (names st) \<and> trim ?w \<noteq> [] \<and> ?w \<notin> set (order st)"
    by (simp add: set_remainingNames)
  moreover from False have "draw st r = st\<lparr>locked := True, spinning := False,
      currentPick := Some ?w, order := order st @ [?w], tempPair := tempPair st @ [?w]\<rparr>"
    by (simp add: draw_accepted)
  ultimately show ?thesis using False by auto
qed

section \<open>The two copies of the save\<close>

lemma february_name:
  "map_option (\<lambda>i. names st ! i)
     (findIndex is_dennis (map (\<lambda>n. toLowerCase (trim n)) (names st)))
   = find normalizes_to_dennis (names st)"
  unfolding normalizes_to_dennis_def by (rule findIndex_map_find)

lemma februaryOverride_find:
  "februaryOverride st label =
     (if label = ''February'' then
        (case find normalizes_to_dennis (names st) of
           None \<Rightarrow> (tempPair st, order st)
         | Some d \<Rightarrow>
             if d \<in> set (tempPair st)
             then (d # filter (\<lambda>n. n \<noteq> d) (tempPair st), order st)
             else ([d, tempPair st ! 1],
                   filter (\<lambda>n. n \<noteq> tempPair st ! 0) (order st) @ [d, tempPair st ! 1]))
      else (tempPair st, order st))"
proof (cases "findIndex is_dennis (map (\<lambda>n. toLowerCase (trim n)) (names st))")
  case None
  with february_name [of st] have "find normalizes_to_dennis (names st) = None" by simp
  with None show ?thesis by (simp add: februaryOverride_def)
next
  case (Some i)
  with february_name [of st] have "find normalizes_to_dennis (names st) = Some (names st ! i)"
    by simp
  with Some show ?thesis by (simp add: februaryOverride_def Let_def)
qed

lemma override_off:
  "length (history st) mod 12 \<noteq> 1 \<or> find normalizes_to_dennis (names st) = None \<Longrightarrow>
   februaryOverride st (MONTHS ! (length (history st) mod 12)) = (tempPair st, order st)"
  by (auto simp: februaryOverride_find months_feb)

lemma override_unless_substitutes:
  "2 \<le> length (tempPair st) \<Longrightarrow> \<not> substitutes st \<Longrightarrow>
   snd (februaryOverride st (MONTHS ! (length (history st) mod 12))) = order st"
  by (auto simp: februaryOverride_find substitutes_def months_feb split: option.splits)

lemma saveMonth_rejected:
  "length (tempPair st) < 2 \<Longrightarrow>
   saveMonth st now = ([Alert ''Spin twice to select both winners!''], st)"
  by (simp add: saveMonth_def)

lemma saveMonth_accepted:
  "2 \<le> length (tempPair st) \<Longrightarrow>
   saveMonth st now =
     ([Confetti],
      st\<lparr>order := snd (februaryOverride st (MONTHS ! (length (history st) mod 12))),
         history := history st @
           [\<lparr>month = MONTHS ! (length (history st) mod 12),
             pair = fst (februaryOverride st (MONTHS ! (length (history st) mod 12))),
             date = now,
             pair_emojis = recordEmojis st
               (fst (februaryOverride st (MONTHS ! (length (history st) mod 12))))\<rparr>],
         tempPair := [], locked := True\<rparr>)"
  by (simp add: saveMonth_def Let_def split_beta)

lemma saveMonth_page_rejected:
  "length (tempPair st) < 2 \<Longrightarrow>
   saveMonth_page st now = ([Alert ''Spin twice to select both winners!''], st)"
  by (simp add: saveMonth_page_def)

lemma saveMonth_page_accepted:
  "2 \<le> length (tempPair st) \<Longrightarrow>
   saveMonth_page st now =
     ([Confetti],
      st\<lparr>history := history st @
           [\<lparr>month = MONTHS ! (length (history st) mod 12), pair = tempPair st, date = now,
             pair_emojis = map (\<lambda>i. case array_get (emojis st) i of
                                        None \<Rightarrow> Some PARTY
                                      | Some e \<Rightarrow> if e = [] then Some PARTY else Some e)
                               [0 ..< length (tempPair st)]\<rparr>],
         tempPair := [], locked := True\<rparr>)"
  by (simp add: saveMonth_page_def Let_def)

text \<open>
  The copy with the February rule does look each winner up in the roster: the glyph of
  a winner is the avatar at the first roster position holding that name (\<^const>\<open>None\<close>,
  the code's \<^verbatim>\<open>undefined\<close>, when the avatar list is shorter), and the celebratory
  glyph when the name is not in the roster.
\<close>

lemma saveMonth_glyphs_by_roster_position:
  assumes "2 \<le> length (tempPair st)" and "k < length (pair (last (history (snd (saveMonth st now)))))"
  shows "length (pair_emojis (last (history (snd (saveMonth st now))))) =
           length (pair (last (history (snd (saveMonth st now))))) \<and>
         (pair (last (history (snd (saveMonth st now)))) ! k \<notin> set (names st) \<longrightarrow>
            pair_emojis (last (history (snd (saveMonth st now)))) ! k = Some PARTY) \<and>
         (i < length (names st) \<and> names st ! i = pair (last (history (snd (saveMonth st now)))) ! k \<and>
          (\<forall>j<i. names st ! j \<noteq> pair (last (history (snd (saveMonth st now)))) ! k) \<longrightarrow>
            pair_emojis (last (history (snd (saveMonth st now)))) ! k = array_get (emojis st) i)"
proof -
  let ?p = "fst (februaryOverride st (MONTHS ! (length (history st) mod 12)))"
  have p: "pair (last (history (snd (saveMonth st now)))) = ?p"
    and e: "pair_emojis (last (history (snd (saveMonth st now)))) = recordEmojis st ?p"
    by (simp_all add: saveMonth_accepted [OF assms(1)])
  from assms(2) have k: "k < length ?p" by (simp add: p)
  have none: "recordEmojis st ?p ! k = Some PARTY" if "?p ! k \<notin> set (names st)"
    using that k by (simp add: recordEmojis_def indexOf_None_iff [symmetric])
  have some: "recordEmojis st ?p ! k = array_get (emojis st) i"
    if "i < length (names st) \<and> names st ! i = ?p ! k \<and> (\<forall>j<i. names st ! j \<noteq> ?p ! k)"
  proof -
    from that have "indexOf (names st) (?p ! k) = Some i"
      by (simp add: indexOf_Some_iff)
    with k show ?thesis by (simp add: recordEmojis_def)
  qed
  show ?thesis
    using none some by (simp add: p e recordEmojis_def)
qed

section \<open>Invariants of the runs\<close>

lemma roster_ok_initial: "roster_ok initial"
  by (simp add: roster_ok_def initial_def)

lemma counted_initial: "counted initial"
  by (simp add: counted_def initial_def)

lemma roster_ok_draw:
  assumes "roster_ok st" "0 \<le> r" "r \<le> 1 - 1 / 2 ^ 53"
  shows "roster_ok (draw st r)"
  using draw_cases [OF assms(2,3), of st] assms(1)
  by (auto simp: roster_ok_def)

lemma counted_draw:
  assumes "counted st" "0 \<le> r" "r \<le> 1 - 1 / 2 ^ 53"
  shows "counted (draw st r)"
  using draw_cases [OF assms(2,3), of st] assms(1)
  by (auto simp: counted_def)

lemma roster_ok_setName: "roster_ok st \<Longrightarrow> roster_ok (setName st i v)"
  by (auto simp: roster_ok_def setName_def)

lemma counted_setName: "counted st \<Longrightarrow> counted (setName st i v)"
  by (simp add: counted_def setName_def)

lemma roster_ok_reset: "roster_ok st \<Longrightarrow> roster_ok (resetChama st)"
  by (simp add: roster_ok_def resetChama_def)

lemma counted_reset: "counted (resetChama st)"
  by (simp add: counted_def resetChama_def)

lemma roster_ok_saveMonth_page: "roster_ok st \<Longrightarrow> roster_ok (snd (saveMonth_page st now))"
  by (auto simp: roster_ok_def saveMonth_page_def Let_def)

lemma counted_saveMonth_page:
  "roster_ok st \<Longrightarrow> counted st \<Longrightarrow> counted (snd (saveMonth_page st now))"
  by (auto simp: roster_ok_def counted_def saveMonth_page_def Let_def)

lemma override_order_members:
  assumes "roster_ok st" "2 \<le> length (tempPair st)"
  shows "\<forall>n\<in>set (snd (februaryOverride st label)). n \<in> set (names st) \<and> trim n \<noteq> []"
proof -
  have second: "tempPair st ! 1 \<in> set (order st)"
    using assms by (auto simp: roster_ok_def)
  have "d \<in> set (names st) \<and> trim d \<noteq> []"
    if "find normalizes_to_dennis (names st) = Some d" for d
    using that by (auto simp: find_Some_iff dennis_nonblank)
  with second assms(1) show ?thesis
    by (auto simp: februaryOverride_find roster_ok_def split: option.splits)
qed

lemma roster_ok_saveMonth:
  assumes "roster_ok st"
  shows "roster_ok (snd (saveMonth st now))"
proof (cases "length (tempPair st) < 2")
  case True
  with assms show ?thesis by (simp add: saveMonth_rejected)
next
  case False
  then have two: "2 \<le> length (tempPair st)" by simp
  from override_order_members [OF assms two] assms show ?thesis
    by (simp add: saveMonth_accepted [OF two] roster_ok_def)
qed

lemma counted_saveMonth:
  assumes "roster_ok st" "counted st" "\<not> substitutes st"
  shows "counted (snd (saveMonth st now))"
proof (cases "length (tempPair st) < 2")
  case True
  with assms show ?thesis by (simp add: saveMonth_rejected)
next
  case False
  then have two: "2 \<le> length (tempPair st)" by simp
  with assms(1) have "length (tempPair st) = 2" by (simp add: roster_ok_def)
  with assms(2) show ?thesis
    by (simp add: saveMonth_accepted [OF two] override_unless_substitutes [OF two assms(3)]
        counted_def)
qed

lemma roster_ok_step:
  assumes "fin = saveMonth \<or> fin = saveMonth_page" "roster_ok st" "valid_op x"
  shows "roster_ok (step fin st x)"
  using assms
  by (cases x)
    (auto simp: roster_ok_draw roster_ok_setName roster_ok_reset roster_ok_saveMonth
      roster_ok_saveMonth_page)

lemma roster_ok_run:
  assumes "fin = saveMonth \<or> fin = saveMonth_page"
  shows "roster_ok st \<Longrightarrow> list_all valid_op ops \<Longrightarrow> roster_ok (run fin st ops)"
proof (induction ops arbitrary: st)
  case Nil
  then show ?case by simp
next
  case (Cons x xs)
  from Cons.prems have "roster_ok (step fin st x)"
    by (simp add: roster_ok_step [OF assms])
  with Cons show ?case by simp
qed

lemma counted_step_page:
  assumes "roster_ok st" "counted st" "valid_op x"
  shows "counted (step saveMonth_page st x)"
  using assms
  by (cases x) (auto simp: counted_draw counted_setName counted_reset counted_saveMonth_page)

lemma counted_run_page:
  "roster_ok st \<Longrightarrow> counted st \<Longrightarrow> list_all valid_op ops \<Longrightarrow>
   counted (run saveMonth_page st ops)"
proof (induction ops arbitrary: st)
  case Nil
  then show ?case by simp
next
  case (Cons x xs)
  from Cons.prems have "roster_ok (step saveMonth_page st x)"
    by (simp add: roster_ok_step)
  moreover from Cons.prems have "counted (step saveMonth_page st x)"
    by (simp add: counted_step_page)
  ultimately show ?case using Cons by simp
qed

lemma counted_step:
  assumes "roster_ok st" "b \<longrightarrow> counted st" "valid_op x"
    and "flag_after b st x"
  shows "counted (step saveMonth st x)"
  using assms
  by (cases x) (auto simp: counted_draw counted_setName counted_reset counted_saveMonth)

lemma counted_run:
  "roster_ok st \<Longrightarrow> b \<longrightarrow> counted st \<Longrightarrow> list_all valid_op ops \<Longrightarrow> untouched b st ops \<Longrightarrow>
   counted (run saveMonth st ops)"
proof (induction ops arbitrary: b st)
  case Nil
  then show ?case by simp
next
  case (Cons x xs)
  from Cons.prems have ok: "roster_ok (step saveMonth st x)"
    by (simp add: roster_ok_step)
  have "flag_after b st x \<longrightarrow> counted (step saveMonth st x)"
    using Cons.prems by (auto intro: counted_step)
  moreover from Cons.prems have "untouched (flag_after b st x) (step saveMonth st x) xs"
    by simp
  ultimately have "counted (run saveMonth (step saveMonth st x) xs)"
    using Cons.prems ok by (intro Cons.IH) simp_all
  then show ?case by simp
qed

lemma counting_without_substitution:
  assumes "list_all valid_op ops"
  shows "counted (run saveMonth_page initial ops) \<and>
         (untouched True initial ops \<longrightarrow> counted (run saveMonth initial ops))"
  using assms
  by (auto intro: counted_run_page counted_run roster_ok_initial counted_initial)




text \<open>The buffer never holds more than two names, whatever the random values.\<close>

lemma buffer_step:
  assumes "fin = saveMonth \<or> fin = saveMonth_page" and "length (tempPair st) \<le> 2"
  shows "length (tempPair (step fin st x)) \<le> 2"
proof (cases x)
  case (SetName i v)
  with assms show ?thesis by (simp add: setName_def)
next
  case (Draw r)
  show ?thesis
  proof (cases "spinning st \<or> remainingNames st = [] \<or> 2 \<le> length (tempPair st)")
    case True
    with assms Draw show ?thesis by (simp add: draw_rejected)
  next
    case False
    with Draw show ?thesis by (simp add: draw_accepted)
  qed
next
  case (Finalize now)
  with assms show ?thesis
    by (cases "length (tempPair st) < 2")
      (auto simp: saveMonth_rejected saveMonth_page_rejected saveMonth_accepted
        saveMonth_page_accepted)
next
  case Reset
  then show ?thesis by (simp add: resetChama_def)
qed

lemma buffer_run:
  assumes "fin = saveMonth \<or> fin = saveMonth_page"
  shows "length (tempPair st) \<le> 2 \<Longrightarrow> length (tempPair (run fin st ops)) \<le> 2"
proof (induction ops arbitrary: st)
  case Nil
  then show ?case by simp
next
  case (Cons x xs)
  from Cons.prems have "length (tempPair (step fin st x)) \<le> 2"
    by (rule buffer_step [OF assms])
  then show ?case by (simp add: Cons.IH)
qed

lemma order_bounded:
  assumes "roster_ok st" and "counted st"
  shows "length (order st) \<le> 10"
proof -
  have "card (set (order st)) \<le> card (set (names st))"
    using assms(1) by (intro card_mono) (auto simp: roster_ok_def)
  also have "\<dots> \<le> length (names st)" by (rule card_length)
  finally show ?thesis
    using assms by (simp add: counted_def roster_ok_def distinct_card TOTAL_MEMBERS_def)
qed

lemma valid_cycles: "list_all valid_cycle cs \<Longrightarrow> list_all valid_op (cycles cs)"
  by (induction cs rule: cycles.induct) simp_all

text \<open>
  The draws of the runs above are whole: the timer runs out before the next event. The
  reset button is not disabled during the three seconds. A reset between the click and
  the timer's callback leaves the winner of the old roster in the Draw Order of the
  blank one, in both copies.
\<close>

lemma reset_during_spin:
  "spinWheel (run saveMonth initial (enter plain_roster)) 0 =
     ((run saveMonth initial (enter plain_roster))
        \<lparr>locked := True, spinning := True, currentPick := None\<rparr>, Some ''Amina'')
   \<and> order (spinTimeout (resetChama (fst (spinWheel (run saveMonth initial (enter plain_roster)) 0)))
        ''Amina'') = [''Amina'']
   \<and> names (spinTimeout (resetChama (fst (spinWheel (run saveMonth initial (enter plain_roster)) 0)))
        ''Amina'') = replicate 10 []"
  by code_simp

section \<open>Month after month on a full roster\<close>

lemma scenario_draw:
  assumes "distinct (names s)" and "\<forall>n\<in>set (names s). trim n \<noteq> []"
    and "\<not> spinning s" and "distinct (order s)" and "set (order s) \<subseteq> set (names s)"
    and "length (order s) < length (names s)" and "length (tempPair s) < 2"
    and "0 \<le> r" and "r \<le> 1 - 1 / 2 ^ 53"
  shows "\<exists>w. w \<in> set (names s) \<and> w \<notin> set (order s) \<and>
           draw s r = s\<lparr>locked := True, spinning := False, currentPick := Some w,
                        order := order s @ [w], tempPair := tempPair s @ [w]\<rparr>"
proof -
  let ?w = "remainingNames s ! pickIndex r (length (remainingNames s))"
  have "length (remainingNames s) = length (names s) - length (order s)"
    using assms(1,2,4,5) by (simp add: remaining_of_roster remaining_count)
  with assms(6) have ne: "remainingNames s \<noteq> []" by auto
  with assms(8,9) have "?w \<in> set (remainingNames s)" by (simp add: winner_remaining)
  then have "?w \<in> set (names s) \<and> ?w \<notin> set (order s)" by (simp add: set_remainingNames)
  moreover have "draw s r = s\<lparr>locked := True, spinning := False, currentPick := Some ?w,
      order := order s @ [?w], tempPair := tempPair s @ [?w]\<rparr>"
    using assms(3,7) ne by (simp add: draw_accepted)
  ultimately show ?thesis by blast
qed

lemma scenario_save:
  assumes "fin = saveMonth \<or> fin = saveMonth_page"
    and "\<forall>n\<in>set (names s). \<not> normalizes_to_dennis n" and "2 \<le> length (tempPair s)"
  shows "\<exists>g. snd (fin s now) =
           s\<lparr>history := history s @
                [\<lparr>month = MONTHS ! (length (history s) mod 12), pair = tempPair s, date = now,
                  pair_emojis = g\<rparr>],
             tempPair := [], locked := True\<rparr>"
proof -
  from assms(2) have "find normalizes_to_dennis (names s) = None"
    by (simp add: find_None_iff)
  then have "februaryOverride s (MONTHS ! (length (history s) mod 12)) = (tempPair s, order s)"
    by (simp add: override_off)
  with assms(1,3) show ?thesis
    by (auto simp: saveMonth_accepted saveMonth_page_accepted)
qed

lemma after_months_length: "after_months ns k s \<Longrightarrow> k \<le> 12 \<Longrightarrow> length (history s) = k"
proof -
  assume a: "after_months ns k s" and k: "k \<le> 12"
  from a have "length (map month (history s)) = length (take k MONTHS)"
    by (simp add: after_months_def)
  with k show ?thesis by (simp add: length_MONTHS)
qed

lemma after_months_start:
  "after_months ns 0 (initial\<lparr>names := ns\<rparr>)"
  by (simp add: after_months_def initial_def)

lemma one_month:
  assumes fin: "fin = saveMonth \<or> fin = saveMonth_page"
    and ns: "length ns = 10" "distinct ns" "\<forall>n\<in>set ns. trim n \<noteq> [] \<and> \<not> normalizes_to_dennis n"
    and s: "after_months ns k s" and k: "k < 5"
    and r: "0 \<le> r1" "r1 \<le> 1 - 1 / 2 ^ 53" "0 \<le> r2" "r2 \<le> 1 - 1 / 2 ^ 53"
  shows "after_months ns (Suc k) (snd (fin (draw (draw s r1) r2) now))"
proof -
  from s have s': "names s = ns" "\<not> spinning s" "tempPair s = []" "distinct (order s)"
      "set (order s) \<subseteq> set ns" "length (order s) = 2 * k" "map month (history s) = take k MONTHS"
    by (simp_all add: after_months_def)
  from s k have h: "length (history s) = k" by (simp add: after_months_length)
  define s1 where "s1 = draw s r1"
  obtain w1 where w1: "w1 \<in> set ns" "w1 \<notin> set (order s)"
      and d1: "s1 = s\<lparr>locked := True, spinning := False, currentPick := Some w1,
                       order := order s @ [w1], tempPair := tempPair s @ [w1]\<rparr>"
    using scenario_draw [of s r1] s' ns k r unfolding s1_def by auto
  have f1: "names s1 = ns" "\<not> spinning s1" "tempPair s1 = [w1]" "order s1 = order s @ [w1]"
      "history s1 = history s"
    by (simp_all add: d1 s')
  define s2 where "s2 = draw s1 r2"
  have "distinct (order s1)" "set (order s1) \<subseteq> set (names s1)"
      "length (order s1) < length (names s1)" "length (tempPair s1) < 2"
    using s' w1 ns k by (simp_all add: f1)
  then obtain w2 where w2: "w2 \<in> set ns" "w2 \<notin> set (order s1)"
      and d2: "s2 = s1\<lparr>locked := True, spinning := False, currentPick := Some w2,
                        order := order s1 @ [w2], tempPair := tempPair s1 @ [w2]\<rparr>"
    using scenario_draw [of s1 r2] f1 ns r unfolding s2_def by auto
  have f2: "names s2 = ns" "\<not> spinning s2" "tempPair s2 = [w1, w2]"
      "order s2 = order s @ [w1, w2]" "history s2 = history s"
    by (simp_all add: d2 f1)
  have "\<forall>n\<in>set (names s2). \<not> normalizes_to_dennis n" "2 \<le> length (tempPair s2)"
    using ns(3) by (simp_all add: f2)
  from scenario_save [OF fin this] obtain g where "snd (fin s2 now) =
      s2\<lparr>history := history s2 @
            [\<lparr>month = MONTHS ! (length (history s2) mod 12), pair = tempPair s2, date = now,
              pair_emojis = g\<rparr>],
          tempPair := [], locked := True\<rparr>"
    by blast
  then have "after_months ns (Suc k) (snd (fin s2 now))"
    using s' w1 w2 h k by (auto simp: after_months_def f1 f2 take_months)
  then show ?thesis by (simp add: s2_def s1_def)
qed

lemma months_run:
  assumes fin: "fin = saveMonth \<or> fin = saveMonth_page"
    and ns: "length ns = 10" "distinct ns" "\<forall>n\<in>set ns. trim n \<noteq> [] \<and> \<not> normalizes_to_dennis n"
  shows "after_months ns k s \<Longrightarrow> k + length cs \<le> 5 \<Longrightarrow> list_all valid_cycle cs \<Longrightarrow>
         after_months ns (k + length cs) (run fin s (cycles cs))"
proof (induction cs arbitrary: k s)
  case Nil
  then show ?case by simp
next
  case (Cons c cs)
  obtain r1 r2 now where c: "c = (r1, r2, now)" by (cases c) auto
  from Cons.prems c have "after_months ns (Suc k) (snd (fin (draw (draw s r1) r2) now))"
    by (intro one_month [OF fin ns]) simp_all
  with Cons.prems have "after_months ns (Suc k + length cs)
      (run fin (snd (fin (draw (draw s r1) r2) now)) (cycles cs))"
    by (intro Cons.IH) simp_all
  then show ?case by (simp add: c)
qed

section \<open>The loader\<close>

lemma expired_iff:
  "Date_getTime e saved = Some t \<Longrightarrow> expired e saved = (7 * 86400000 < now_ms e - t)"
proof -
  assume t: "Date_getTime e saved = Some t"
  have "(7 < (of_int (now_ms e - t) :: rat) / 86400000) = (7 * 86400000 < (of_int (now_ms e - t) :: rat))"
    by (simp add: pos_less_divide_eq)
  also have "\<dots> = (of_int (7 * 86400000) < (of_int (now_ms e - t) :: rat))"
    by simp
  also have "\<dots> = (7 * 86400000 < now_ms e - t)"
    by (simp only: of_int_less_iff)
  finally show ?thesis
    using t by (simp add: expired_def diffDays_def EXPIRY_DAYS_def)
qed

lemma load_parsed:
  assumes "window_defined e" and "raw \<noteq> []" and "JSON_parse e raw = Some parsed"
    and "parsed \<noteq> JNull"
  shows "loadStoredData e (Some raw) =
           (case field parsed ''savedAt'' of
              Some saved \<Rightarrow>
                if truthy (Some saved) \<and> expired e saved then (defaults e, None)
                else (validated e parsed, Some raw)
            | None \<Rightarrow> (validated e parsed, Some raw))"
  using assms by (cases parsed) (auto simp: loadStoredData_def)

section \<open>Claims\<close>

text \<open>
  C4. A save with a buffer that does not hold exactly two names changes nothing and
  only raises the alert. The code tests for fewer than two; in every state reached from
  the empty snapshot by roster edits, draws, saves and resets, in either copy and
  whatever the random values, the buffer never holds more than two, so a size other
  than two is a size below two.
\<close>

theorem finalize_rejected_unless_two:
  assumes "fin = saveMonth \<or> fin = saveMonth_page"
    and "length (tempPair (run fin initial ops)) \<noteq> 2"
  shows "length (tempPair (run fin initial ops)) < 2 \<and>
         fin (run fin initial ops) now =
           ([Alert ''Spin twice to select both winners!''], run fin initial ops)"
proof -
  have "length (tempPair (run fin initial ops)) \<le> 2"
    using assms(1) by (rule buffer_run) (simp add: initial_def)
  with assms(2) have small: "length (tempPair (run fin initial ops)) < 2"
    by simp
  with assms(1) show ?thesis
    by (auto simp: saveMonth_rejected saveMonth_page_rejected)
qed

theorem finalize_rejected_unless_two_witness:
  "saveMonth (run saveMonth initial (enter denno_roster @ [Draw (1/2)])) ''t'' =
     ([Alert ''Spin twice to select both winners!''],
      run saveMonth initial (enter denno_roster @ [Draw (1/2)]))
   \<and> tempPair (run saveMonth initial (enter denno_roster @ [Draw (1/2)])) = [''Faith'']"
proof -
  have n: "length (tempPair (run saveMonth initial (enter denno_roster @ [Draw (1/2)]))) \<noteq> 2"
    by code_simp
  have t: "tempPair (run saveMonth initial (enter denno_roster @ [Draw (1/2)])) = [''Faith'']"
    by code_simp
  from finalize_rejected_unless_two [OF _ n, where now = "''t''"] t show ?thesis
    by simp
qed

text \<open>
  C3. Whenever a draw is accepted (no draw in flight, an eligible name left, fewer than
  two names in the buffer) and \<^verbatim>\<open>Math.random()\<close> returns a double \<open>r\<close> at least 0 and
  below 1, the eligible names are the roster names that are not blank after trimming
  and not yet in Draw Order; the index, the floor of the double product, is below their
  count; the winner is the eligible name at that index, hence a roster name, not blank,
  not in Draw Order; it is appended to Draw Order and to the buffer. For a roster
  shorter than \<open>2\<^sup>3\<^sup>2\<close>, as every array is, the index is \<open>k\<close> exactly for the \<open>r\<close>
  whose exact product with the count lies from \<open>k\<close> to \<open>k + 1\<close>, both ends moved down
  by half the gap between the doubles below them: every index has an interval of \<open>r\<close>
  of length one over the count, up to that rounding.
\<close>

theorem draw_selects_eligible:
  assumes "\<not> spinning st" and "remainingNames st \<noteq> []" and "length (tempPair st) < 2"
    and "0 \<le> r" and "r \<le> 1 - 1 / 2 ^ 53" and "length (names st) < 2 ^ 32"
  shows "set (remainingNames st) = {n \<in> set (names st). trim n \<noteq> [] \<and> n \<notin> set (order st)} \<and>
         pickIndex r (length (remainingNames st)) < length (remainingNames st) \<and>
         (k < length (remainingNames st) \<longrightarrow>
            (pickIndex r (length (remainingNames st)) = k) =
              (of_nat k - half_gap_below (int k) \<le> r * of_nat (length (remainingNames st)) \<and>
               r * of_nat (length (remainingNames st)) < of_nat k + 1 - half_gap_below (int k + 1))) \<and>
         snd (spinWheel st r) =
           Some (remainingNames st ! pickIndex r (length (remainingNames st))) \<and>
         remainingNames st ! pickIndex r (length (remainingNames st)) \<in> set (names st) \<and>
         trim (remainingNames st ! pickIndex r (length (remainingNames st))) \<noteq> [] \<and>
         remainingNames st ! pickIndex r (length (remainingNames st)) \<notin> set (order st) \<and>
         order (draw st r) =
           order st @ [remainingNames st ! pickIndex r (length (remainingNames st))] \<and>
         tempPair (draw st r) =
           tempPair st @ [remainingNames st ! pickIndex r (length (remainingNames st))]"
proof -
  let ?n = "length (remainingNames st)"
  let ?w = "remainingNames st ! pickIndex r ?n"
  have pos: "0 < ?n" using assms(2) by simp
  have "?n \<le> length (names st)"
    by (simp add: remainingNames_def)
  with assms(6) have small: "k < 2 ^ 32" if "k < ?n"
    using that by simp
  have "?w \<in> set (remainingNames st)"
    using assms by (simp add: winner_remaining)
  then have w: "?w \<in> set (names st) \<and> trim ?w \<noteq> [] \<and> ?w \<notin> set (order st)"
    by (simp add: set_remainingNames)
  have sw: "snd (spinWheel st r) = Some ?w"
    using assms(1-3) by (simp add: spinWheel_def Let_def)
  have d: "order (draw st r) = order st @ [?w] \<and> tempPair (draw st r) = tempPair st @ [?w]"
    using assms(1-3) by (simp add: draw_accepted)
  have iv: "k < ?n \<longrightarrow>
      (pickIndex r ?n = k) =
        (of_nat k - half_gap_below (int k) \<le> r * of_nat ?n \<and>
         r * of_nat ?n < of_nat k + 1 - half_gap_below (int k + 1))"
    using pickIndex_eq_iff [OF assms(4), of k ?n] small by blast
  show ?thesis
    using w sw d pickIndex_less [OF assms(4,5) pos] iv
    by (simp only: set_remainingNames simp_thms)
qed

text \<open>The witness draws with the double 0.7 on ten eligible names: index 7, Hawa.\<close>

theorem draw_selects_eligible_witness:
  "remainingNames (run saveMonth_page initial (enter denno_roster)) = denno_roster
   \<and> pickIndex (3152519739159347 / 4503599627370496) 10 = 7
   \<and> snd (spinWheel (run saveMonth_page initial (enter denno_roster))
        (3152519739159347 / 4503599627370496)) = Some ''Hawa''
   \<and> order (draw (run saveMonth_page initial (enter denno_roster))
        (3152519739159347 / 4503599627370496)) = [''Hawa'']"
proof -
  let ?st = "run saveMonth_page initial (enter denno_roster)"
  let ?r = "3152519739159347 / 4503599627370496 :: rat"
  have rem: "remainingNames ?st = denno_roster" by code_simp
  have a: "\<not> spinning ?st" by code_simp
  have b: "remainingNames ?st \<noteq> []" by code_simp
  have c: "length (tempPair ?st) < 2" by code_simp
  have r: "0 \<le> ?r" "?r \<le> 1 - 1 / 2 ^ 53" by simp_all
  have "length (names ?st) = 10" by code_simp
  then have l: "length (names ?st) < 2 ^ 32" by simp
  have ord: "order ?st = []" by code_simp
  have pk: "pickIndex ?r 10 = 7" by code_simp
  have w: "remainingNames ?st ! pickIndex ?r (length (remainingNames ?st)) = ''Hawa''"
    by code_simp
  from draw_selects_eligible [OF a b c r l]
  have "snd (spinWheel ?st ?r) =
      Some (remainingNames ?st ! pickIndex ?r (length (remainingNames ?st)))"
    and "order (draw ?st ?r) =
      order ?st @ [remainingNames ?st ! pickIndex ?r (length (remainingNames ?st))]"
    by simp_all
  then have "snd (spinWheel ?st ?r) = Some ''Hawa''" and "order (draw ?st ?r) = [''Hawa'']"
    by (simp_all only: w ord append.simps)
  with rem pk show ?thesis by simp
qed

text \<open>
  C1. The February rule of \<^verbatim>\<open>saveMonth\<close> in \<^verbatim>\<open>src/unnamed/part_000\<close>. When a save is
  accepted with a History whose length is 1 modulo 12, the new record is labelled
  February. Let \<open>d\<close> be the first roster name whose trimmed, lower-cased form is
  "dennis" or "denno". If \<open>d\<close> is a pending winner, the record's pair is \<open>d\<close> followed
  by the other pending winners, and Draw Order is unchanged. If \<open>d\<close> is not a pending
  winner, the pair is \<open>d\<close> and the pending winner at index 1, and Draw Order is the old
  one without the pending winner at index 0, followed by that pair. If no roster name
  passes the test, the pair is the buffer and Draw Order is unchanged.
\<close>

theorem february_override:
  assumes "2 \<le> length (tempPair st)" and "length (history st) mod 12 = 1"
  shows "history (snd (saveMonth st now)) =
           history st @ [last (history (snd (saveMonth st now)))] \<and>
         month (last (history (snd (saveMonth st now)))) = ''February'' \<and>
         (find normalizes_to_dennis (names st) = Some d \<and> d \<in> set (tempPair st) \<longrightarrow>
            d \<in> set (names st) \<and> normalizes_to_dennis d \<and>
            pair (last (history (snd (saveMonth st now)))) =
              d # filter (\<lambda>n. n \<noteq> d) (tempPair st) \<and>
            order (snd (saveMonth st now)) = order st) \<and>
         (find normalizes_to_dennis (names st) = Some d \<and> d \<notin> set (tempPair st) \<longrightarrow>
            d \<in> set (names st) \<and> normalizes_to_dennis d \<and>
            pair (last (history (snd (saveMonth st now)))) = [d, tempPair st ! 1] \<and>
            order (snd (saveMonth st now)) =
              filter (\<lambda>n. n \<noteq> tempPair st ! 0) (order st) @ [d, tempPair st ! 1]) \<and>
         (find normalizes_to_dennis (names st) = None \<longrightarrow>
            (\<forall>n\<in>set (names st). \<not> normalizes_to_dennis n) \<and>
            pair (last (history (snd (saveMonth st now)))) = tempPair st \<and>
            order (snd (saveMonth st now)) = order st)"
proof -
  have feb: "MONTHS ! (length (history st) mod 12) = ''February''"
    using months_feb [of "length (history st)"] assms(2) by blast
  have none: "\<forall>n\<in>set (names st). \<not> normalizes_to_dennis n"
    if "find normalizes_to_dennis (names st) = None"
    using that by (simp add: find_None_iff)
  show ?thesis
    using none find_dennis_member [of "names st" d]
    by (simp add: saveMonth_accepted [OF assms(1)] feb februaryOverride_find)
qed

text \<open>
  The witness runs the rule on a roster whose name is " DeNNo" followed by a no-break
  space, which passes the test only trimmed and lower-cased, and on two rosters with
  and without "Denno".
\<close>

theorem february_override_witness:
  "find normalizes_to_dennis padded_roster = Some padded_denno
   \<and> pair (last (history (snd (saveMonth
      (run saveMonth initial (enter padded_roster @ cycles [(0, 0, ''t1'')] @ [Draw (1/2), Draw (1/2)]))
      ''t2'')))) = [padded_denno, ''Faith'']
   \<and> order (snd (saveMonth
      (run saveMonth initial (enter padded_roster @ cycles [(0, 0, ''t1'')] @ [Draw (1/2), Draw (1/2)]))
      ''t2'')) = [''Amina'', ''Brian'', ''Faith'', padded_denno, ''Faith'']
   \<and> pair (last (history (snd (saveMonth
      (run saveMonth initial (enter denno_roster @ cycles [(0, 0, ''t1'')] @ [Draw (1/2), Draw 0]))
      ''t2'')))) = [''Denno'', ''Gitau'']
   \<and> order (snd (saveMonth
      (run saveMonth initial (enter denno_roster @ cycles [(0, 0, ''t1'')] @ [Draw (1/2), Draw 0]))
      ''t2'')) = [''Amina'', ''Brian'', ''Gitau'', ''Denno'']
   \<and> pair (last (history (snd (saveMonth
      (run saveMonth initial (enter plain_roster @ cycles [(0, 0, ''t1'')] @ [Draw (1/2), Draw 0]))
      ''t2'')))) = [''Hawa'', ''Carol'']
   \<and> order (snd (saveMonth
      (run saveMonth initial (enter plain_roster @ cycles [(0, 0, ''t1'')] @ [Draw (1/2), Draw 0]))
      ''t2'')) = [''Amina'', ''Brian'', ''Hawa'', ''Carol'']"
proof -
  let ?a = "run saveMonth initial
              (enter padded_roster @ cycles [(0, 0, ''t1'')] @ [Draw (1/2), Draw (1/2)])"
  let ?b = "run saveMonth initial
              (enter denno_roster @ cycles [(0, 0, ''t1'')] @ [Draw (1/2), Draw 0])"
  let ?c = "run saveMonth initial
              (enter plain_roster @ cycles [(0, 0, ''t1'')] @ [Draw (1/2), Draw 0])"
  have pf: "find normalizes_to_dennis padded_roster = Some padded_denno" by code_simp
  have a2: "2 \<le> length (tempPair ?a)" by code_simp
  have a1: "length (history ?a) mod 12 = 1" by code_simp
  have af: "find normalizes_to_dennis (names ?a) = Some padded_denno" by code_simp
  have ad: "padded_denno \<noteq> ''Gitau''" "padded_denno \<noteq> ''Faith''" by code_simp+
  have at: "tempPair ?a = [''Gitau'', ''Faith'']" by code_simp
  have ao: "order ?a = [''Amina'', ''Brian'', ''Gitau'', ''Faith'']" by code_simp
  have b2: "2 \<le> length (tempPair ?b)" by code_simp
  have b1: "length (history ?b) mod 12 = 1" by code_simp
  have bf: "find normalizes_to_dennis (names ?b) = Some ''Denno''" by code_simp
  have bt: "tempPair ?b = [''Gitau'', ''Denno'']" by code_simp
  have bo: "order ?b = [''Amina'', ''Brian'', ''Gitau'', ''Denno'']" by code_simp
  have c2: "2 \<le> length (tempPair ?c)" by code_simp
  have c1: "length (history ?c) mod 12 = 1" by code_simp
  have cf: "find normalizes_to_dennis (names ?c) = None" by code_simp
  have ct: "tempPair ?c = [''Hawa'', ''Carol'']" by code_simp
  have co: "order ?c = [''Amina'', ''Brian'', ''Hawa'', ''Carol'']" by code_simp
  from february_override [OF a2 a1, of "''t2''" padded_denno] af ad at ao
  have "pair (last (history (snd (saveMonth ?a ''t2'')))) = [padded_denno, ''Faith''] \<and>
        order (snd (saveMonth ?a ''t2'')) =
          [''Amina'', ''Brian'', ''Faith'', padded_denno, ''Faith'']"
    by simp
  moreover from february_override [OF b2 b1, of "''t2''" "''Denno''"] bf bt bo
  have "pair (last (history (snd (saveMonth ?b ''t2'')))) = [''Denno'', ''Gitau''] \<and>
        order (snd (saveMonth ?b ''t2'')) = [''Amina'', ''Brian'', ''Gitau'', ''Denno'']"
    by simp
  moreover from february_override [OF c2 c1, of "''t2''"] cf ct co
  have "pair (last (history (snd (saveMonth ?c ''t2'')))) = [''Hawa'', ''Carol''] \<and>
        order (snd (saveMonth ?c ''t2'')) = [''Amina'', ''Brian'', ''Hawa'', ''Carol'']"
    by simp
  ultimately show ?thesis using pf by simp
qed




text \<open>
  C5. The count of Draw Order against History and the buffer, at the run above: two
  records, an empty buffer, five names in Draw Order. The save of February in
  \<^verbatim>\<open>src/unnamed/part_000\<close> removed one name and appended two.
\<close>

theorem counting_broken_by_substitution:
  "length (order (run saveMonth initial
      (enter denno_roster @ cycles [(0, 0, ''t1''), (1/2, 1/2, ''t2'')]))) = 5
   \<and> length (history (run saveMonth initial
      (enter denno_roster @ cycles [(0, 0, ''t1''), (1/2, 1/2, ''t2'')]))) = 2
   \<and> tempPair (run saveMonth initial
      (enter denno_roster @ cycles [(0, 0, ''t1''), (1/2, 1/2, ''t2'')])) = []
   \<and> length (order (run saveMonth_page initial
      (enter denno_roster @ cycles [(0, 0, ''t1''), (1/2, 1/2, ''t2'')]))) = 4"
  by code_simp

text \<open>
  C8. The glyphs of a record saved by \<^verbatim>\<open>src/src/app/page.tsx\<close>: with the roster
  entered and Faith (slot 5) and Eve (slot 4) drawn, the record carries the avatars of
  slots 0 and 1, where the copy with the February rule carries those of slots 5 and 4.
\<close>

theorem page_glyphs_ignore_roster_position:
  "pair (last (history (snd (saveMonth_page
      (run saveMonth_page initial (enter denno_roster @ [Draw (1/2), Draw (1/2)])) ''t'')))) =
     [''Faith'', ''Eve'']
   \<and> indexOf denno_roster ''Faith'' = Some 5 \<and> indexOf denno_roster ''Eve'' = Some 4
   \<and> pair_emojis (last (history (snd (saveMonth_page
      (run saveMonth_page initial (enter denno_roster @ [Draw (1/2), Draw (1/2)])) ''t'')))) =
     [array_get DEFAULT_EMOJIS 0, array_get DEFAULT_EMOJIS 1]
   \<and> pair_emojis (last (history (snd (saveMonth
      (run saveMonth_page initial (enter denno_roster @ [Draw (1/2), Draw (1/2)])) ''t'')))) =
     [array_get DEFAULT_EMOJIS 5, array_get DEFAULT_EMOJIS 4]
   \<and> array_get DEFAULT_EMOJIS 0 \<noteq> array_get DEFAULT_EMOJIS 5"
  by code_simp

text \<open>
  C10, as the code has it. The two copies of \<^verbatim>\<open>saveMonth\<close> reject alike: with fewer
  than two names in the buffer both raise the same alert and change nothing. They
  always raise the same effects. On an accepted save they produce the same state up to
  the glyphs of the records (the same Draw Order, buffer, lock flag, and records with
  the same label, pair and date) exactly when the February rule leaves the pair as
  drawn: the History length is not 1 modulo 12, or no roster name passes the test, or
  the first roster name that passes it is the first pending winner and is pending once.
\<close>

theorem saveMonth_copies_agree:
  shows "(length (tempPair st) < 2 \<longrightarrow> saveMonth st now = saveMonth_page st now) \<and>
         fst (saveMonth st now) = fst (saveMonth_page st now) \<and>
         (2 \<le> length (tempPair st) \<longrightarrow>
            (without_glyphs (snd (saveMonth st now)) =
             without_glyphs (snd (saveMonth_page st now))) =
            (length (history st) mod 12 \<noteq> 1 \<or>
             (case find normalizes_to_dennis (names st) of
                None \<Rightarrow> True
              | Some d \<Rightarrow> tempPair st = d # filter (\<lambda>n. n \<noteq> d) (tempPair st))))"
proof (cases "length (tempPair st) < 2")
  case True
  then show ?thesis by (simp add: saveMonth_rejected saveMonth_page_rejected)
next
  case False
  then have two: "2 \<le> length (tempPair st)" by simp
  let ?m = "MONTHS ! (length (history st) mod 12)"
  let ?ov = "februaryOverride st ?m"
  have agree: "(without_glyphs (snd (saveMonth st now)) =
        without_glyphs (snd (saveMonth_page st now))) = (?ov = (tempPair st, order st))"
  proof
    assume eq: "without_glyphs (snd (saveMonth st now)) =
        without_glyphs (snd (saveMonth_page st now))"
    from arg_cong [OF eq, of order] have "snd ?ov = order st"
      by (simp add: without_glyphs_def saveMonth_accepted [OF two]
          saveMonth_page_accepted [OF two])
    moreover from arg_cong [OF eq, of "\<lambda>s. map pair (history s)"] have "fst ?ov = tempPair st"
      by (simp add: without_glyphs_def saveMonth_accepted [OF two]
          saveMonth_page_accepted [OF two] comp_def)
    ultimately show "?ov = (tempPair st, order st)"
      by (simp add: prod_eq_iff)
  next
    assume "?ov = (tempPair st, order st)"
    then show "without_glyphs (snd (saveMonth st now)) =
        without_glyphs (snd (saveMonth_page st now))"
      by (simp add: without_glyphs_def saveMonth_accepted [OF two]
          saveMonth_page_accepted [OF two])
  qed
  have rule: "(?ov = (tempPair st, order st)) =
      (length (history st) mod 12 \<noteq> 1 \<or>
       (case find normalizes_to_dennis (names st) of
          None \<Rightarrow> True
        | Some d \<Rightarrow> tempPair st = d # filter (\<lambda>n. n \<noteq> d) (tempPair st)))"
  proof (cases "length (history st) mod 12 = 1")
    case False
    then show ?thesis by (simp add: override_off)
  next
    case feb: True
    then have label: "?m = ''February''"
      using months_feb [of "length (history st)"] by blast
    have core: "(?ov = (tempPair st, order st)) =
        (case find normalizes_to_dennis (names st) of
           None \<Rightarrow> True
         | Some d \<Rightarrow> tempPair st = d # filter (\<lambda>n. n \<noteq> d) (tempPair st))"
    proof (cases "find normalizes_to_dennis (names st)")
      case None
      then show ?thesis by (simp add: override_off)
    next
      case (Some d)
      show ?thesis
      proof (cases "d \<in> set (tempPair st)")
        case True
        with Some show ?thesis
          by (auto simp: februaryOverride_find label)
      next
        case False
        have "tempPair st \<noteq> d # xs" for xs
          using False by (metis list.set_intros(1))
        moreover from this have "[d, tempPair st ! 1] \<noteq> tempPair st"
          by metis
        ultimately show ?thesis
          using Some False by (simp add: februaryOverride_find label)
      qed
    qed
    from feb core show ?thesis
      by blast
  qed
  from two agree rule show ?thesis
    by (simp add: saveMonth_accepted saveMonth_page_accepted)
qed

theorem saveMonth_copies_agree_witness:
  "without_glyphs (snd (saveMonth
      (run saveMonth initial (enter denno_roster @ [Draw (1/2), Draw (1/2)])) ''t'')) =
   without_glyphs (snd (saveMonth_page
      (run saveMonth initial (enter denno_roster @ [Draw (1/2), Draw (1/2)])) ''t''))
   \<and> tempPair (run saveMonth initial (enter denno_roster @ [Draw (1/2), Draw (1/2)])) =
       [''Faith'', ''Eve'']
   \<and> without_glyphs (snd (saveMonth
      (run saveMonth initial (enter denno_roster @ cycles [(0, 0, ''t1'')] @ [Draw 0, Draw 0]))
      ''t2'')) =
     without_glyphs (snd (saveMonth_page
      (run saveMonth initial (enter denno_roster @ cycles [(0, 0, ''t1'')] @ [Draw 0, Draw 0]))
      ''t2''))
   \<and> tempPair (run saveMonth initial
        (enter denno_roster @ cycles [(0, 0, ''t1'')] @ [Draw 0, Draw 0])) = [''Denno'', ''Carol'']
   \<and> without_glyphs (snd (saveMonth
      (run saveMonth initial (enter denno_roster @ cycles [(0, 0, ''t1'')] @ [Draw (1/2), Draw 0]))
      ''t2'')) \<noteq>
     without_glyphs (snd (saveMonth_page
      (run saveMonth initial (enter denno_roster @ cycles [(0, 0, ''t1'')] @ [Draw (1/2), Draw 0]))
      ''t2''))"
proof -
  let ?jan = "run saveMonth initial (enter denno_roster @ [Draw (1/2), Draw (1/2)])"
  let ?first = "run saveMonth initial
      (enter denno_roster @ cycles [(0, 0, ''t1'')] @ [Draw 0, Draw 0])"
  let ?second = "run saveMonth initial
      (enter denno_roster @ cycles [(0, 0, ''t1'')] @ [Draw (1/2), Draw 0])"
  have j2: "2 \<le> length (tempPair ?jan)" and jh: "length (history ?jan) mod 12 \<noteq> 1"
    and jt: "tempPair ?jan = [''Faith'', ''Eve'']"
    by code_simp+
  have f2: "2 \<le> length (tempPair ?first)"
    and ff: "find normalizes_to_dennis (names ?first) = Some ''Denno''"
    and ft: "tempPair ?first = [''Denno'', ''Carol'']"
    by code_simp+
  have s2: "2 \<le> length (tempPair ?second)" and sh: "length (history ?second) mod 12 = 1"
    and sf: "find normalizes_to_dennis (names ?second) = Some ''Denno''"
    and st: "tempPair ?second = [''Gitau'', ''Denno'']"
    by code_simp+
  from saveMonth_copies_agree [of ?jan "''t''"] j2 jh
  have "without_glyphs (snd (saveMonth ?jan ''t'')) = without_glyphs (snd (saveMonth_page ?jan ''t''))"
    by blast
  moreover from saveMonth_copies_agree [of ?first "''t2''"] f2 ff ft
  have "without_glyphs (snd (saveMonth ?first ''t2'')) =
      without_glyphs (snd (saveMonth_page ?first ''t2''))"
    by simp
  moreover from saveMonth_copies_agree [of ?second "''t2''"] s2 sh sf st
  have "without_glyphs (snd (saveMonth ?second ''t2'')) \<noteq>
      without_glyphs (snd (saveMonth_page ?second ''t2''))"
    by simp
  ultimately show ?thesis using jt ft by blast
qed

text \<open>
  The claim as stated fails: in February, with Denno in the roster and not drawn, only
  the copy with the rule puts Denno into the pair and rewrites Draw Order.
\<close>

theorem saveMonth_copies_differ_counterexample:
  "pair (last (history (snd (saveMonth
      (run saveMonth initial
         (enter denno_roster @ cycles [(0, 0, ''t1'')] @ [Draw (1/2), Draw (1/2)])) ''t2'')))) =
     [''Denno'', ''Faith'']
   \<and> pair (last (history (snd (saveMonth_page
      (run saveMonth initial
         (enter denno_roster @ cycles [(0, 0, ''t1'')] @ [Draw (1/2), Draw (1/2)])) ''t2'')))) =
     [''Gitau'', ''Faith'']
   \<and> order (snd (saveMonth
      (run saveMonth initial
         (enter denno_roster @ cycles [(0, 0, ''t1'')] @ [Draw (1/2), Draw (1/2)])) ''t2'')) =
     [''Amina'', ''Brian'', ''Faith'', ''Denno'', ''Faith'']
   \<and> order (snd (saveMonth_page
      (run saveMonth initial
         (enter denno_roster @ cycles [(0, 0, ''t1'')] @ [Draw (1/2), Draw (1/2)])) ''t2'')) =
     [''Amina'', ''Brian'', ''Gitau'', ''Faith'']
   \<and> saveMonth
      (run saveMonth initial
         (enter denno_roster @ cycles [(0, 0, ''t1'')] @ [Draw (1/2), Draw (1/2)])) ''t2'' \<noteq>
     saveMonth_page
      (run saveMonth initial
         (enter denno_roster @ cycles [(0, 0, ''t1'')] @ [Draw (1/2), Draw (1/2)])) ''t2''"
  by code_simp

text \<open>
  C6. In the browser, for a stored item that parses to a value whose \<^verbatim>\<open>savedAt\<close> is
  truthy and read by \<^verbatim>\<open>Date\<close> as the time \<open>t\<close>: when \<open>t\<close> is more than 7 days
  (604800000 ms) before the clock, the load returns the defaults (ten blank names, the
  default avatars, empty order, unlocked, empty history) and the item is removed; when
  \<open>t\<close> is 7 days old or fresher, the item stays and the load returns the stored fields.
\<close>

theorem load_expiry:
  assumes "window_defined e" and "raw \<noteq> []" and "JSON_parse e raw = Some parsed"
    and "field parsed ''savedAt'' = Some saved" and "truthy (Some saved)"
    and "Date_getTime e saved = Some t"
  shows "(604800000 < now_ms e - t \<longrightarrow>
            loadStoredData e (Some raw) = (defaults e, None) \<and>
            sd_names (defaults e) = replicate 10 (JStr []) \<and>
            sd_emojis (defaults e) = map JStr DEFAULT_EMOJIS \<and>
            sd_order (defaults e) = [] \<and> \<not> sd_locked (defaults e) \<and>
            sd_history (defaults e) = []) \<and>
         (now_ms e - t \<le> 604800000 \<longrightarrow>
            loadStoredData e (Some raw) = (validated e parsed, Some raw))"
proof -
  from assms(4) have "parsed \<noteq> JNull" by auto
  with assms show ?thesis
    by (auto simp: load_parsed expired_iff defaults_def TOTAL_MEMBERS_def)
qed

theorem load_expiry_witness:
  "loadStoredData
     \<lparr>window_defined = True,
      JSON_parse = (\<lambda>s. Some (JObj [(''locked'', JBool True), (''savedAt'', JStr ''2026-01-01'')])),
      Date_getTime = (\<lambda>v. Some 1000), now_ms = 604801001, now_iso = ''now''\<rparr>
     (Some ''blob'')
   = (\<lparr>sd_names = replicate 10 (JStr []), sd_emojis = map JStr DEFAULT_EMOJIS, sd_order = [],
       sd_locked = False, sd_history = [], savedAt = JStr ''now''\<rparr>, None)
   \<and> snd (loadStoredData
     \<lparr>window_defined = True,
      JSON_parse = (\<lambda>s. Some (JObj [(''locked'', JBool True), (''savedAt'', JStr ''2026-01-01'')])),
      Date_getTime = (\<lambda>v. Some 1000), now_ms = 604801000, now_iso = ''now''\<rparr>
     (Some ''blob'')) = Some ''blob''
   \<and> sd_locked (fst (loadStoredData
     \<lparr>window_defined = True,
      JSON_parse = (\<lambda>s. Some (JObj [(''locked'', JBool True), (''savedAt'', JStr ''2026-01-01'')])),
      Date_getTime = (\<lambda>v. Some 1000), now_ms = 604801000, now_iso = ''now''\<rparr>
     (Some ''blob'')))"
proof -
  let ?p = "JObj [(''locked'', JBool True), (''savedAt'', JStr ''2026-01-01'')]"
  let ?old = "\<lparr>window_defined = True, JSON_parse = (\<lambda>s. Some ?p),
      Date_getTime = (\<lambda>v. Some 1000), now_ms = 604801001, now_iso = ''now''\<rparr>"
  let ?new = "\<lparr>window_defined = True, JSON_parse = (\<lambda>s. Some ?p),
      Date_getTime = (\<lambda>v. Some 1000), now_ms = 604801000, now_iso = ''now''\<rparr>"
  have f: "field ?p ''savedAt'' = Some (JStr ''2026-01-01'')" by simp
  have tr: "truthy (Some (JStr ''2026-01-01''))" by simp
  have "loadStoredData ?old (Some ''blob'') = (defaults ?old, None)"
    using load_expiry [of ?old "''blob''" ?p "JStr ''2026-01-01''" 1000, OF _ _ _ f tr] by simp
  moreover have "loadStoredData ?new (Some ''blob'') = (validated ?new ?p, Some ''blob'')"
    using load_expiry [of ?new "''blob''" ?p "JStr ''2026-01-01''" 1000, OF _ _ _ f tr] by simp
  ultimately show ?thesis
    by (simp add: defaults_def validated_def TOTAL_MEMBERS_def)
qed

text \<open>
  C7, as the code has it. In the browser, for a stored item that parses to a value
  other than \<^verbatim>\<open>null\<close> and is not expired, the item stays and every field of the
  snapshot is read from the field of the same name alone: \<^verbatim>\<open>names\<close>, \<^verbatim>\<open>emojis\<close>,
  \<^verbatim>\<open>order\<close> and \<^verbatim>\<open>history\<close> are kept when the stored value is an array, whatever
  its elements, and replaced by their defaults otherwise; \<^verbatim>\<open>locked\<close> is the truthiness
  of the stored value; \<^verbatim>\<open>savedAt\<close> is kept when truthy and is the clock's text
  otherwise.
\<close>

theorem load_per_field:
  assumes "window_defined e" and "raw \<noteq> []" and "JSON_parse e raw = Some parsed"
    and "parsed \<noteq> JNull"
    and "case field parsed ''savedAt'' of
           Some saved \<Rightarrow> \<not> (truthy (Some saved) \<and> expired e saved)
         | None \<Rightarrow> True"
  shows "snd (loadStoredData e (Some raw)) = Some raw \<and>
         sd_names (fst (loadStoredData e (Some raw))) =
           (case field parsed ''names'' of Some (JArr xs) \<Rightarrow> xs
            | _ \<Rightarrow> replicate 10 (JStr [])) \<and>
         sd_emojis (fst (loadStoredData e (Some raw))) =
           (case field parsed ''emojis'' of Some (JArr xs) \<Rightarrow> xs
            | _ \<Rightarrow> map JStr DEFAULT_EMOJIS) \<and>
         sd_order (fst (loadStoredData e (Some raw))) =
           (case field parsed ''order'' of Some (JArr xs) \<Rightarrow> xs | _ \<Rightarrow> []) \<and>
         sd_locked (fst (loadStoredData e (Some raw))) = truthy (field parsed ''locked'') \<and>
         sd_history (fst (loadStoredData e (Some raw))) =
           (case field parsed ''history'' of Some (JArr xs) \<Rightarrow> xs | _ \<Rightarrow> []) \<and>
         (field parsed ''savedAt'' = Some v \<and> truthy (Some v) \<longrightarrow>
            savedAt (fst (loadStoredData e (Some raw))) = v) \<and>
         (\<not> truthy (field parsed ''savedAt'') \<longrightarrow>
            savedAt (fst (loadStoredData e (Some raw))) = JStr (now_iso e))"
proof -
  have arr: "(if isArray f then elements f else d) = (case f of Some (JArr xs) \<Rightarrow> xs | _ \<Rightarrow> d)"
    for f and d :: "json list"
    by (cases f rule: isArray.cases) simp_all
  have "loadStoredData e (Some raw) = (validated e parsed, Some raw)"
    using assms by (auto simp: load_parsed split: option.splits)
  then show ?thesis
    unfolding validated_def TOTAL_MEMBERS_def by (auto simp: arr split: option.splits)
qed

theorem load_per_field_witness:
  "sd_names (fst (loadStoredData
     \<lparr>window_defined = True,
      JSON_parse = (\<lambda>s. Some (JObj [(''names'', JArr [JStr ''Amina'']), (''emojis'', JNum 3),
                                      (''locked'', JBool True)])),
      Date_getTime = (\<lambda>v. None), now_ms = 0, now_iso = ''now''\<rparr>
     (Some ''blob''))) = [JStr ''Amina'']
   \<and> sd_emojis (fst (loadStoredData
     \<lparr>window_defined = True,
      JSON_parse = (\<lambda>s. Some (JObj [(''names'', JArr [JStr ''Amina'']), (''emojis'', JNum 3),
                                      (''locked'', JBool True)])),
      Date_getTime = (\<lambda>v. None), now_ms = 0, now_iso = ''now''\<rparr>
     (Some ''blob''))) = map JStr DEFAULT_EMOJIS
   \<and> sd_locked (fst (loadStoredData
     \<lparr>window_defined = True,
      JSON_parse = (\<lambda>s. Some (JObj [(''names'', JArr [JStr ''Amina'']), (''emojis'', JNum 3),
                                      (''locked'', JBool True)])),
      Date_getTime = (\<lambda>v. None), now_ms = 0, now_iso = ''now''\<rparr>
     (Some ''blob'')))"
proof -
  let ?p = "JObj [(''names'', JArr [JStr ''Amina'']), (''emojis'', JNum 3), (''locked'', JBool True)]"
  let ?e = "\<lparr>window_defined = True, JSON_parse = (\<lambda>s. Some ?p),
      Date_getTime = (\<lambda>v. None), now_ms = 0, now_iso = ''now''\<rparr>"
  have "case field ?p ''savedAt'' of
          Some saved \<Rightarrow> \<not> (truthy (Some saved) \<and> expired ?e saved)
        | None \<Rightarrow> True"
    by simp
  from load_per_field [of ?e "''blob''" ?p, OF _ _ _ _ this] show ?thesis
    by simp
qed

text \<open>
  The claim as stated fails: a stored \<^verbatim>\<open>names\<close> that is an array of numbers is kept,
  and a stored \<^verbatim>\<open>locked\<close> that is a text is read as true, where the default is false.
\<close>

theorem load_shape_counterexample:
  "sd_names (fst (loadStoredData
     \<lparr>window_defined = True,
      JSON_parse = (\<lambda>s. Some (JObj [(''names'', JArr [JNum 1, JNum 2]), (''locked'', JStr ''no'')])),
      Date_getTime = (\<lambda>v. None), now_ms = 0, now_iso = ''now''\<rparr>
     (Some ''blob''))) = [JNum 1, JNum 2]
   \<and> sd_locked (fst (loadStoredData
     \<lparr>window_defined = True,
      JSON_parse = (\<lambda>s. Some (JObj [(''names'', JArr [JNum 1, JNum 2]), (''locked'', JStr ''no'')])),
      Date_getTime = (\<lambda>v. None), now_ms = 0, now_iso = ''now''\<rparr>
     (Some ''blob'')))
   \<and> \<not> sd_locked (defaults
     \<lparr>window_defined = True,
      JSON_parse = (\<lambda>s. Some (JObj [(''names'', JArr [JNum 1, JNum 2]), (''locked'', JStr ''no'')])),
      Date_getTime = (\<lambda>v. None), now_ms = 0, now_iso = ''now''\<rparr>)"
  by (simp add: loadStoredData_def validated_def defaults_def)

text \<open>
  C9, as the code has it. Start from a roster of 10 distinct names, none blank after
  trimming and none passing the February test, with nothing drawn and no history. Five
  draw, draw, save cycles, in either copy and whatever the random values, yield a
  History with the labels January to May in order, a Draw Order of length 10 without
  duplicates that holds the whole roster, and an empty buffer. No eligible name is then
  left, and every further draw is rejected: ten draws succeed, not twenty-four.
\<close>

theorem five_months_exhaust_roster:
  assumes "fin = saveMonth \<or> fin = saveMonth_page"
    and "length ns = 10" and "distinct ns"
    and "list_all (\<lambda>n. trim n \<noteq> [] \<and> \<not> normalizes_to_dennis n) ns"
    and "length cs = 5" and "list_all valid_cycle cs"
  shows "map month (history (run fin (initial\<lparr>names := ns\<rparr>) (cycles cs))) =
           [''January'', ''February'', ''March'', ''April'', ''May''] \<and>
         length (order (run fin (initial\<lparr>names := ns\<rparr>) (cycles cs))) = 10 \<and>
         distinct (order (run fin (initial\<lparr>names := ns\<rparr>) (cycles cs))) \<and>
         set (order (run fin (initial\<lparr>names := ns\<rparr>) (cycles cs))) = set ns \<and>
         tempPair (run fin (initial\<lparr>names := ns\<rparr>) (cycles cs)) = [] \<and>
         remainingNames (run fin (initial\<lparr>names := ns\<rparr>) (cycles cs)) = [] \<and>
         draw (run fin (initial\<lparr>names := ns\<rparr>) (cycles cs)) r =
           run fin (initial\<lparr>names := ns\<rparr>) (cycles cs)"
proof -
  let ?s = "run fin (initial\<lparr>names := ns\<rparr>) (cycles cs)"
  have roster: "\<forall>n\<in>set ns. trim n \<noteq> [] \<and> \<not> normalizes_to_dennis n"
    using assms(4) by (simp add: list_all_iff)
  have "after_months ns (0 + length cs) ?s"
    using assms(5,6)
    by (intro months_run [OF assms(1,2,3) roster] after_months_start) simp_all
  then have a: "names ?s = ns" "tempPair ?s = []" "distinct (order ?s)"
      "set (order ?s) \<subseteq> set ns" "length (order ?s) = 10"
      "map month (history ?s) = take 5 MONTHS"
    using assms(5) by (simp_all add: after_months_def)
  have "card (set (order ?s)) = card (set ns)"
    using a(3,5) assms(2,3) by (simp add: distinct_card)
  with a(4) have all: "set (order ?s) = set ns"
    by (intro card_subset_eq) simp_all
  then have rem: "remainingNames ?s = []"
    by (simp add: remainingNames_def a(1) filter_empty_conv)
  then have "draw ?s r = ?s"
    by (simp add: draw_rejected)
  with a all rem show ?thesis
    by (simp add: MONTHS_def)
qed

theorem five_months_exhaust_roster_witness:
  "run saveMonth_page initial (enter plain_roster) = initial\<lparr>names := plain_roster\<rparr>
   \<and> map month (history (run saveMonth_page (initial\<lparr>names := plain_roster\<rparr>)
       (cycles [(0, 0, ''t1''), (1/2, 1/2, ''t2''), (0, 1/2, ''t3''), (3/8, 0, ''t4''),
                (0, 0, ''t5'')]))) =
     [''January'', ''February'', ''March'', ''April'', ''May'']
   \<and> order (run saveMonth_page (initial\<lparr>names := plain_roster\<rparr>)
       (cycles [(0, 0, ''t1''), (1/2, 1/2, ''t2''), (0, 1/2, ''t3''), (3/8, 0, ''t4''),
                (0, 0, ''t5'')])) =
     [''Amina'', ''Brian'', ''Hawa'', ''Gitau'', ''Carol'', ''Imani'', ''Faith'', ''Eve'',
      ''Juma'', ''Kioko'']
   \<and> remainingNames (run saveMonth_page (initial\<lparr>names := plain_roster\<rparr>)
       (cycles [(0, 0, ''t1''), (1/2, 1/2, ''t2''), (0, 1/2, ''t3''), (3/8, 0, ''t4''),
                (0, 0, ''t5'')])) = []"
proof -
  let ?cs = "[(0, 0, ''t1''), (1/2, 1/2, ''t2''), (0, 1/2, ''t3''), (3/8, 0, ''t4''),
              (0::rat, 0::rat, ''t5'')]"
  have e: "run saveMonth_page initial (enter plain_roster) = initial\<lparr>names := plain_roster\<rparr>"
    by code_simp
  have o: "order (run saveMonth_page (initial\<lparr>names := plain_roster\<rparr>) (cycles ?cs)) =
     [''Amina'', ''Brian'', ''Hawa'', ''Gitau'', ''Carol'', ''Imani'', ''Faith'', ''Eve'',
      ''Juma'', ''Kioko'']"
    by code_simp
  have h: "length plain_roster = 10" "distinct plain_roster"
    by (simp_all add: plain_roster_def)
  have p: "list_all (\<lambda>n. trim n \<noteq> [] \<and> \<not> normalizes_to_dennis n) plain_roster"
    by code_simp
  have c: "length ?cs = 5" "list_all valid_cycle ?cs"
    by simp_all
  from five_months_exhaust_roster [OF _ h p c, of saveMonth_page] e o show ?thesis
    by simp
qed

text \<open>
  The claim as stated fails: on a ten-name roster no twelve cycles draw 24 names; with
  every random value 0 the twelve cycles leave five records and ten names drawn.
\<close>

theorem twenty_four_draws_counterexample:
  "length (history (run saveMonth_page (initial\<lparr>names := plain_roster\<rparr>)
      (cycles (replicate 12 (0, 0, ''t''))))) = 5
   \<and> length (order (run saveMonth_page (initial\<lparr>names := plain_roster\<rparr>)
      (cycles (replicate 12 (0, 0, ''t''))))) = 10
   \<and> \<not> (\<exists>cs. length cs = 12 \<and> list_all valid_cycle cs \<and>
         length (order (run saveMonth_page (initial\<lparr>names := plain_roster\<rparr>) (cycles cs))) = 24)"
proof -
  let ?start = "initial\<lparr>names := plain_roster\<rparr>"
  have ok: "roster_ok ?start" and cnt: "counted ?start"
    by (simp_all add: roster_ok_def counted_def initial_def plain_roster_def TOTAL_MEMBERS_def)
  have "length (order (run saveMonth_page ?start (cycles cs))) \<le> 10"
    if "list_all valid_cycle cs" for cs
    using that ok cnt
    by (intro order_bounded roster_ok_run counted_run_page valid_cycles) simp_all
  then have "\<not> (\<exists>cs. length cs = 12 \<and> list_all valid_cycle cs \<and>
      length (order (run saveMonth_page ?start (cycles cs))) = 24)"
    by fastforce
  moreover have "length (history (run saveMonth_page ?start
      (cycles (replicate 12 (0, 0, ''t''))))) = 5"
    by code_simp
  moreover have "length (order (run saveMonth_page ?start
      (cycles (replicate 12 (0, 0, ''t''))))) = 10"
    by code_simp
  ultimately show ?thesis by blast
qed


end
